theory Spec2Isabelle
  imports Complex_Main
begin

section \<open>The batch inference runners (run\_gemini\_hr.py, run\_gemini\_swe.py)\<close>

text \<open>
  The two entry points are modelled side by side. Python strings are lists of characters
  with code points below 256; Python integers are \<open>int\<close>, positions produced by
  \<open>enumerate\<close> and \<open>len\<close> are \<open>nat\<close>. Exceptions are values of the type
  \<open>py_error\<close>.
\<close>

datatype py_error =
    RuntimeError string
  | ValueError string
  | KeyError string
  | IndexError
  | ZeroDivisionError
  | TransportError

subsection \<open>String primitives of the Python library\<close>

text \<open>\<open>str.isspace\<close> on the code points below 256.\<close>

definition py_isspace :: "char \<Rightarrow> bool" where
  "py_isspace c = (c \<in> set [CHR 0x09, CHR 0x0A, CHR 0x0B, CHR 0x0C, CHR 0x0D,
       CHR 0x1C, CHR 0x1D, CHR 0x1E, CHR 0x1F, CHR '' '', CHR 0x85, CHR 0xA0])"

text \<open>\<open>s.strip()\<close>: whitespace removed at both ends.\<close>

definition py_strip :: "string \<Rightarrow> string" where
  "py_strip s = rev (dropWhile py_isspace (rev (dropWhile py_isspace s)))"

text \<open>\<open>s.split(sep)\<close> for a one-character separator; the result is never empty.\<close>

fun py_split :: "char \<Rightarrow> string \<Rightarrow> string list" where
  "py_split sep [] = [[]]"
| "py_split sep (c # cs) =
     (if c = sep then [] # py_split sep cs
      else (case py_split sep cs of
              [] \<Rightarrow> [[c]]
            | w # ws \<Rightarrow> (c # w) # ws))"

subsection \<open>Constants\<close>

definition MAX_RETRIES :: nat where
  "MAX_RETRIES = 3"

definition PROMPTS_PER_KEY :: int where
  "PROMPTS_PER_KEY = 450"

subsection \<open>Startup: loading the credential list\<close>

text \<open>
  \<open>KEY_LIST = [k.strip() for k in os.getenv("GOOGLE_API_KEYS", "").split(",") if k.strip()]\<close>.
  The argument is the value of the environment variable after \<open>load_dotenv\<close>,
  \<open>None\<close> when it is not set.
\<close>

definition KEY_LIST :: "string option \<Rightarrow> string list" where
  "KEY_LIST env =
     map py_strip
       (filter (\<lambda>k. py_strip k \<noteq> [])
          (py_split CHR '','' (case env of None \<Rightarrow> [] | Some v \<Rightarrow> v)))"

text \<open>
  The module-level code of run\_gemini\_hr.py up to the check of the key list: it raises
  or yields the keys the rest of the module works with.
\<close>

definition startup_hr :: "string option \<Rightarrow> py_error + string list" where
  "startup_hr env =
     (if length (KEY_LIST env) < 2
      then Inl (RuntimeError ''Need at least two keys in GOOGLE_API_KEYS'')
      else Inr (KEY_LIST env))"

text \<open>
  run\_gemini\_swe.py checks first that the file \<open>.env\<close> exists
  (\<open>dotenv_exists\<close>), then the key list in the same way.
\<close>

definition startup_swe :: "bool \<Rightarrow> string option \<Rightarrow> py_error + string list" where
  "startup_swe dotenv_exists env =
     (if \<not> dotenv_exists
      then Inl (RuntimeError ''.env missing - put your API keys there.'')
      else if length (KEY_LIST env) < 2
      then Inl (RuntimeError ''Need at least two keys in GOOGLE_API_KEYS'')
      else Inr (KEY_LIST env))"

subsection \<open>Credential rotation\<close>

text \<open>
  Python's \<open>xs[i]\<close>: a negative index counts from the end, an index out of range
  raises.
\<close>

definition py_index :: "'a list \<Rightarrow> int \<Rightarrow> py_error + 'a" where
  "py_index xs i =
     (if 0 \<le> i \<and> i < int (length xs) then Inr (xs ! nat i)
      else if i < 0 \<and> - int (length xs) \<le> i then Inr (xs ! nat (int (length xs) + i))
      else Inl IndexError)"

text \<open>
  \<open>block = (idx - 1) // PROMPTS_PER_KEY; return KEY_LIST[block % len(KEY_LIST)]\<close>.
  The block size is a parameter, which both entry points set to
  \<open>PROMPTS_PER_KEY\<close>. Integer division and remainder on \<open>int\<close> round as
  Python's \<open>//\<close> and \<open>%\<close> do; a zero divisor raises.
\<close>

definition key_slot :: "int \<Rightarrow> nat \<Rightarrow> int \<Rightarrow> int" where
  "key_slot block_size num_keys idx = ((idx - 1) div block_size) mod int num_keys"

definition pick_api_key_sized :: "int \<Rightarrow> string list \<Rightarrow> int \<Rightarrow> py_error + string" where
  "pick_api_key_sized block_size keys idx =
     (if block_size = 0 \<or> keys = [] then Inl ZeroDivisionError
      else py_index keys (key_slot block_size (length keys) idx))"

definition pick_api_key :: "string list \<Rightarrow> int \<Rightarrow> py_error + string" where
  "pick_api_key keys idx = pick_api_key_sized PROMPTS_PER_KEY keys idx"

subsection \<open>Regular expressions of the runners\<close>

text \<open>
  The patterns of the source are sequences of three kinds of atoms: a literal compared
  without regard to case (\<open>re.I\<close>), the lazy \<open>.*?\<close> under \<open>re.S\<close> (any characters,
  shortest first; the flag says whether it is parenthesised as a group), and \<open>\d\<close>.
  The letters of the literals are ASCII, so ignoring case is ASCII case folding; below
  code point 256 the decimal digits are \<open>0\<close> to \<open>9\<close>.
\<close>

datatype atom = Lit string | AnyLazy bool | Digit

definition ci_eq :: "char \<Rightarrow> char \<Rightarrow> bool" where
  "ci_eq a c =
     (let x = (of_char a :: nat); y = (of_char c :: nat)
      in x = y \<or> (65 \<le> x \<and> x \<le> 90 \<and> y = x + 32) \<or> (65 \<le> y \<and> y \<le> 90 \<and> x = y + 32))"

definition py_isdigit :: "char \<Rightarrow> bool" where
  "py_isdigit c = (let x = (of_char c :: nat) in 48 \<le> x \<and> x \<le> 57)"

text \<open>A literal at the head of the text: the characters it matched and the rest.\<close>

fun lit_prefix :: "string \<Rightarrow> string \<Rightarrow> (string \<times> string) option" where
  "lit_prefix [] s = Some ([], s)"
| "lit_prefix (a # l) [] = None"
| "lit_prefix (a # l) (c # cs) =
     (if ci_eq a c then map_option (\<lambda>(w, r). (c # w, r)) (lit_prefix l cs) else None)"

text \<open>
  The backtracking matcher anchored at the head of the text. It returns the text each atom
  consumed. A lazy atom first tries to consume nothing and grows by one character each
  time the rest of the pattern fails.
\<close>

fun match_at :: "atom list \<Rightarrow> string \<Rightarrow> string list option" where
  "match_at [] s = Some []"
| "match_at (Lit l # p) s =
     (case lit_prefix l s of
        None \<Rightarrow> None
      | Some (w, r) \<Rightarrow> map_option ((#) w) (match_at p r))"
| "match_at (Digit # p) [] = None"
| "match_at (Digit # p) (c # cs) =
     (if py_isdigit c then map_option ((#) [c]) (match_at p cs) else None)"
| "match_at (AnyLazy g # p) [] = map_option ((#) []) (match_at p [])"
| "match_at (AnyLazy g # p) (c # cs) =
     (case match_at p (c # cs) of
        Some ws \<Rightarrow> Some ([] # ws)
      | None \<Rightarrow>
          (case match_at (AnyLazy g # p) cs of
             Some (w # ws) \<Rightarrow> Some ((c # w) # ws)
           | _ \<Rightarrow> None))"

text \<open>\<open>re.search\<close>: the match at the leftmost position that has one.\<close>

fun re_search :: "atom list \<Rightarrow> string \<Rightarrow> string list option" where
  "re_search p [] = match_at p []"
| "re_search p (c # cs) =
     (case match_at p (c # cs) of
        Some ws \<Rightarrow> Some ws
      | None \<Rightarrow> re_search p cs)"

text \<open>\<open>m.group(k)\<close>: the text of the \<open>k\<close>-th parenthesised atom.\<close>

definition groups :: "atom list \<Rightarrow> string list \<Rightarrow> string list" where
  "groups p ws = map snd (filter (\<lambda>(a, w). a = AnyLazy True) (zip p ws))"

definition re_group :: "nat \<Rightarrow> atom list \<Rightarrow> string list \<Rightarrow> string" where
  "re_group k p ws = groups p ws ! (k - 1)"

text \<open>\<open>TAG_RE\<close> of run\_gemini\_hr.py; \<open>\d\<close> as searched by \<open>call_gemini\<close>.\<close>

definition TAG_RE :: "atom list" where
  "TAG_RE = [Lit ''<explanation>'', AnyLazy False, Lit ''</explanation>'', AnyLazy False,
             Lit ''<top-3>'', AnyLazy False, Digit]"

definition DIGIT_RE :: "atom list" where
  "DIGIT_RE = [Digit]"

text \<open>
  \<open>EXPL_RE\<close> of run\_gemini\_swe.py; the pattern written inline in the main loop of
  run\_gemini\_hr.py is the same.
\<close>

definition EXPL_RE :: "atom list" where
  "EXPL_RE = [Lit ''<explanation>'', AnyLazy True, Lit ''</explanation>'', AnyLazy False,
              Lit ''<top-3>'', AnyLazy True, Lit ''</top-3>'']"

subsection \<open>Response parser\<close>

definition split_response :: "string \<Rightarrow> string \<times> string" where
  "split_response txt =
     (case re_search EXPL_RE txt of
        None \<Rightarrow> ([], txt)
      | Some ws \<Rightarrow> (py_strip (re_group 1 EXPL_RE ws), py_strip (re_group 2 EXPL_RE ws)))"

text \<open>\<open>re.findall(r"\d+", line)\<close>: the maximal runs of digits, from left to right.\<close>

fun digit_runs :: "string \<Rightarrow> string \<Rightarrow> string list" where
  "digit_runs cur [] = (if cur = [] then [] else [cur])"
| "digit_runs cur (c # cs) =
     (if py_isdigit c then digit_runs (cur @ [c]) cs
      else (if cur = [] then [] else [cur]) @ digit_runs [] cs)"

definition findall_digits :: "string \<Rightarrow> string list" where
  "findall_digits line = digit_runs [] line"

text \<open>\<open>str(n)\<close> for a natural number.\<close>

fun py_str :: "nat \<Rightarrow> string" where
  "py_str n =
     (if n < 10 then [''0123456789'' ! n]
      else py_str (n div 10) @ [''0123456789'' ! (n mod 10)])"

text \<open>
  \<open>int(n)\<close> on a run of digits, as \<open>re.findall(r"\d+", ...)\<close> yields them. CPython
  converts at most \<open>sys.int_info.default_max_str_digits\<close> digits, leading zeros counted,
  and raises \<open>ValueError\<close> on a longer string.
\<close>

definition INT_MAX_STR_DIGITS :: nat where
  "INT_MAX_STR_DIGITS = 4300"

definition decimal_value :: "string \<Rightarrow> int" where
  "decimal_value n = foldl (\<lambda>a c. 10 * a + (int (of_char c) - 48)) 0 n"

definition py_int :: "string \<Rightarrow> py_error + int" where
  "py_int n =
     (if INT_MAX_STR_DIGITS < length n
      then Inl (ValueError
                 (''Exceeds the limit (4300 digits) for integer string conversion: value has ''
                  @ py_str (length n)
                  @ '' digits; use sys.set_int_max_str_digits() to increase the limit''))
      else Inr (decimal_value n))"

text \<open>
  The loop of \<open>parse_selection\<close>, the same in both files up to the names of its
  variables: \<open>sel\<close> is the list built so far.
\<close>

fun selection_loop :: "string list \<Rightarrow> string list \<Rightarrow> string list \<Rightarrow> py_error + string list" where
  "selection_loop pids sel [] = Inr sel"
| "selection_loop pids sel (n # nums) =
     (case py_int n of
        Inl e \<Rightarrow> Inl e
      | Inr v \<Rightarrow>
          (let i = v - 1 in
           if 0 \<le> i \<and> i < int (length pids) then
             (case py_index pids i of
                Inl e \<Rightarrow> Inl e
              | Inr pid \<Rightarrow>
                  if pid \<notin> set sel then selection_loop pids (sel @ [pid]) nums
                  else selection_loop pids sel nums)
           else selection_loop pids sel nums))"

definition parse_selection :: "string \<Rightarrow> string list \<Rightarrow> py_error + string list" where
  "parse_selection line pids = selection_loop pids [] (findall_digits line)"

text \<open>
  The specification's wording for the resolved selection: duplicates collapse to their
  first occurrence and the order of first mention is kept.
\<close>

fun first_mentions :: "'a list \<Rightarrow> 'a list" where
  "first_mentions [] = []"
| "first_mentions (x # xs) = x # filter (\<lambda>y. y \<noteq> x) (first_mentions xs)"

text \<open>
  What a match means, atom by atom: the text a literal consumed equals it up to case, a
  digit atom consumed one digit, a lazy atom consumed anything.
\<close>

definition ci_match :: "string \<Rightarrow> string \<Rightarrow> bool" where
  "ci_match l w = list_all2 ci_eq l w"

fun atom_ok :: "atom \<Rightarrow> string \<Rightarrow> bool" where
  "atom_ok (Lit l) w = ci_match l w"
| "atom_ok (AnyLazy g) w = True"
| "atom_ok Digit w = (case w of [c] \<Rightarrow> py_isdigit c | _ \<Rightarrow> False)"

subsection \<open>Invocation records and the effects of a run\<close>

text \<open>One line of the run log (the dictionary \<open>rec\<close> of the main loop).\<close>

record invocation_record =
  scenario_id :: string
  role_tag :: string
  prompt_style :: string
  rec_persona_ids :: "string list"
  persona_meta :: "(string \<times> string option) list list"
  prompt_text :: string
  response_text :: string
  rationale_text :: string
  selection_line :: string
  selected_persona_ids :: "string list"
  timestamp_utc :: string

text \<open>
  The effects of a process on the outside, in the order they happen: a call of the
  endpoint with a key and a prompt, a \<open>time.sleep\<close>, a line written to the run log and
  flushed, \<open>save_checkpoint\<close>, and the removal of the checkpoint file if it exists.
  A written line carries the global index of its scenario beside the record; the index is
  not a field of the JSON line. Log messages and the progress line are left out.
\<close>

datatype event =
    Request string string
  | Sleep rat
  | Write nat invocation_record
  | SaveCheckpoint nat
  | Unlink

subsection \<open>Model invoker\<close>

text \<open>
  Durations in seconds. \<open>BACKOFF_BASE = 1.5\<close> and its powers are exact in binary floating
  point; \<open>DELAY_SECONDS\<close> is the decimal that the literal \<open>2.1\<close> writes, which the float
  of the program only approximates. No property below depends on its value.
\<close>

definition BACKOFF_BASE :: rat where
  "BACKOFF_BASE = 3 / 2"

definition DELAY_SECONDS :: rat where
  "DELAY_SECONDS = 21 / 10"

text \<open>
  What \<open>generate_content(...).text\<close> does at one attempt: it raises (an exception of class
  \<open>Exception\<close>) or returns the raw text.
\<close>

datatype attempt_result = Raises py_error | Returns string

text \<open>The body of the \<open>try\<close> block of \<open>call_model\<close> (run\_gemini\_hr.py).\<close>

definition attempt_hr :: "attempt_result \<Rightarrow> py_error + string" where
  "attempt_hr r =
     (case r of
        Raises e \<Rightarrow> Inl e
      | Returns raw \<Rightarrow>
          (let txt = py_strip raw in
           if re_search TAG_RE txt = None then Inl (ValueError ''Missing tags or digits'')
           else Inr txt))"

text \<open>The body of the \<open>try\<close> block of \<open>call_gemini\<close> (run\_gemini\_swe.py).\<close>

definition attempt_swe :: "attempt_result \<Rightarrow> py_error + string" where
  "attempt_swe r =
     (case r of
        Raises e \<Rightarrow> Inl e
      | Returns raw \<Rightarrow>
          (let text = py_strip raw in
           if re_search DIGIT_RE text = None then Inl (ValueError ''No digit found - parse error'')
           else Inr text))"

text \<open>
  The retry loop, the same in both files: \<open>body\<close> is the \<open>try\<close> block, \<open>answer\<close> gives
  what the endpoint does at each attempt of this call, the list holds the attempts still to
  make. The \<open>except\<close> clause catches every exception of the body.
\<close>

fun retry_loop ::
  "(attempt_result \<Rightarrow> py_error + string) \<Rightarrow> (nat \<Rightarrow> attempt_result) \<Rightarrow> string \<Rightarrow> string
     \<Rightarrow> nat list \<Rightarrow> string \<times> event list" where
  "retry_loop body answer api_key prompt [] = ([], [])"
| "retry_loop body answer api_key prompt (attempt # rest) =
     (case body (answer attempt) of
        Inr txt \<Rightarrow> (txt, [Request api_key prompt])
      | Inl e \<Rightarrow>
          (case retry_loop body answer api_key prompt rest of
             (r, evs) \<Rightarrow>
               (r, Request api_key prompt
                   # (if attempt < MAX_RETRIES then [Sleep (BACKOFF_BASE ^ attempt)] else [])
                   @ evs)))"

definition call_model :: "(nat \<Rightarrow> attempt_result) \<Rightarrow> string \<Rightarrow> string \<Rightarrow> string \<times> event list" where
  "call_model answer api_key prompt =
     retry_loop attempt_hr answer api_key prompt [1..<MAX_RETRIES + 1]"

definition call_gemini :: "(nat \<Rightarrow> attempt_result) \<Rightarrow> string \<Rightarrow> string \<Rightarrow> string \<times> event list" where
  "call_gemini answer api_key prompt =
     retry_loop attempt_swe answer api_key prompt [1..<MAX_RETRIES + 1]"

definition is_request :: "event \<Rightarrow> bool" where
  "is_request e = (case e of Request k p \<Rightarrow> True | _ \<Rightarrow> False)"

text \<open>
  The shape \<open>TAG_RE\<close> looks for, in words: an opening explanation tag, later a closing
  explanation tag, later an opening top-3 tag, later a digit; tags up to case.
\<close>

definition tag_shape :: "string \<Rightarrow> bool" where
  "tag_shape txt = (\<exists>pre o1 b c1 m t d g rest.
      txt = pre @ o1 @ b @ c1 @ m @ t @ d @ [g] @ rest
      \<and> ci_match ''<explanation>'' o1
      \<and> ci_match ''</explanation>'' c1
      \<and> ci_match ''<top-3>'' t
      \<and> py_isdigit g)"

text \<open>
  A script as a whole: the module-level code runs first; only when it has not raised does
  the entry point call \<open>main\<close>, with the key list it loaded.
\<close>

definition run_module :: "py_error + string list \<Rightarrow> (string list \<Rightarrow> 'r) \<Rightarrow> py_error + 'r" where
  "run_module startup main_fn =
     (case startup of
        Inl e \<Rightarrow> Inl e
      | Inr keys \<Rightarrow> Inr (main_fn keys))"

text \<open>
  Lines 115 to 121 of the main loop of run\_gemini\_hr.py: the response is split and
  resolved only when it is not empty.
\<close>

definition parse_response_hr ::
  "string \<Rightarrow> string list \<Rightarrow> py_error + (string \<times> string \<times> string list)" where
  "parse_response_hr resp pids =
     (if resp \<noteq> [] then
        (case (case re_search EXPL_RE resp of
                 Some ws \<Rightarrow> (py_strip (re_group 1 EXPL_RE ws), py_strip (re_group 2 EXPL_RE ws))
               | None \<Rightarrow> ([], resp)) of
           (rat, selb) \<Rightarrow>
             (case parse_selection selb pids of
                Inl e \<Rightarrow> Inl e
              | Inr sel_ids \<Rightarrow> Inr (rat, selb, sel_ids)))
      else Inr ([], [], []))"

text \<open>Lines 130 and 131 of the main loop of run\_gemini\_swe.py.\<close>

definition parse_response_swe ::
  "string \<Rightarrow> string list \<Rightarrow> py_error + (string \<times> string \<times> string list)" where
  "parse_response_swe resp pids =
     (case split_response resp of
        (rat, selb) \<Rightarrow>
          (case parse_selection selb pids of
             Inl e \<Rightarrow> Inl e
           | Inr sel_ids \<Rightarrow> Inr (rat, selb, sel_ids)))"

subsection \<open>Inputs of a run\<close>

record variant =
  variant_id :: string
  persona_ids :: "string list"

text \<open>
  A persona is a dictionary from field names to values; \<open>id2p\<close> maps persona identifiers
  to personas; \<open>style_items\<close> is the list of (style key, template) pairs; \<open>api_keys\<close>
  is the key list loaded at startup.
\<close>

record config =
  variants :: "variant list"
  style_items :: "(string \<times> string) list"
  id2p :: "string \<rightharpoonup> (string \<rightharpoonup> string)"
  api_keys :: "string list"

text \<open>
  What the outside does during one process: the answers of the endpoint to each attempt
  made for a global index, and the clock read when the record of an index is built.
\<close>

record world =
  endpoint :: "nat \<Rightarrow> nat \<Rightarrow> attempt_result"
  clock :: "nat \<Rightarrow> string"

datatype role = HR | SWE

definition ROLE_TAG :: "role \<Rightarrow> string" where
  "ROLE_TAG r = (case r of HR \<Rightarrow> ''hr'' | SWE \<Rightarrow> ''swe'')"

definition DRY_RUN_LIMIT :: "role \<Rightarrow> nat" where
  "DRY_RUN_LIMIT r = (case r of HR \<Rightarrow> 5 | SWE \<Rightarrow> 1)"

definition resume_field :: "role \<Rightarrow> string" where
  "resume_field r = (case r of HR \<Rightarrow> ''resume_hr'' | SWE \<Rightarrow> ''resume_swe'')"

subsection \<open>Prompt construction\<close>

text \<open>
  \<open>s.replace(old, new)\<close> for a non-empty \<open>old\<close>: occurrences are replaced from left to
  right without overlap. The counter is the number of characters of a replaced occurrence
  still to skip.
\<close>

fun replace_scan :: "string \<Rightarrow> string \<Rightarrow> nat \<Rightarrow> string \<Rightarrow> string" where
  "replace_scan old new skip [] = []"
| "replace_scan old new skip (c # cs) =
     (if 0 < skip then replace_scan old new (skip - 1) cs
      else if take (length old) (c # cs) = old
           then new @ replace_scan old new (length old - 1) cs
           else c # replace_scan old new 0 cs)"

definition py_replace :: "string \<Rightarrow> string \<Rightarrow> string \<Rightarrow> string" where
  "py_replace old new s = replace_scan old new 0 s"

text \<open>\<open>sep.join(xs)\<close>.\<close>

fun py_join :: "string \<Rightarrow> string list \<Rightarrow> string" where
  "py_join sep [] = []"
| "py_join sep [x] = x"
| "py_join sep (x # y # ys) = x @ sep @ py_join sep (y # ys)"

text \<open>A comprehension whose element expression may raise: the first exception ends it.\<close>

fun collect :: "('a \<Rightarrow> py_error + 'b) \<Rightarrow> 'a list \<Rightarrow> py_error + 'b list" where
  "collect f [] = Inr []"
| "collect f (x # xs) =
     (case f x of
        Inl e \<Rightarrow> Inl e
      | Inr y \<Rightarrow> (case collect f xs of Inl e \<Rightarrow> Inl e | Inr ys \<Rightarrow> Inr (y # ys)))"

text \<open>\<open>id2p[p][field]\<close>.\<close>

definition persona_field :: "(string \<rightharpoonup> (string \<rightharpoonup> string)) \<Rightarrow> string \<Rightarrow> string \<Rightarrow> py_error + string" where
  "persona_field personas field p =
     (case personas p of
        None \<Rightarrow> Inl (KeyError p)
      | Some d \<Rightarrow> (case d field of None \<Rightarrow> Inl (KeyError field) | Some v \<Rightarrow> Inr v))"

definition BLOCK_SEP :: string where
  "BLOCK_SEP = CHR 0x0A # replicate 80 CHR ''-'' @ [CHR 0x0A]"

text \<open>The text \<open>block\<close> built for a variant at the head of the outer loop.\<close>

definition candidates_block :: "role \<Rightarrow> config \<Rightarrow> variant \<Rightarrow> py_error + string" where
  "candidates_block r cfg var =
     (case collect (persona_field (id2p cfg) (resume_field r)) (persona_ids var) of
        Inl e \<Rightarrow> Inl e
      | Inr resumes \<Rightarrow>
          Inr (py_join BLOCK_SEP
                 (map (\<lambda>(i, resume). ''### Candidate '' @ py_str (i + 1) @ [CHR 0x0A] @ resume)
                    (enumerate 0 resumes))))"

definition PLACEHOLDER :: string where
  "PLACEHOLDER = ''{{candidates_block}}''"

definition RATIONALE_SUFFIX :: string where
  "RATIONALE_SUFFIX = [CHR 0x0A, CHR 0x0A] @ ''Please add a brief rationale.''"

text \<open>
  The prompt of a scenario: run\_gemini\_hr.py appends a sentence to the substituted
  template, run\_gemini\_swe.py does not.
\<close>

definition render_prompt :: "role \<Rightarrow> string \<Rightarrow> string \<Rightarrow> string" where
  "render_prompt r tpl block =
     (case r of
        HR \<Rightarrow> py_replace PLACEHOLDER block tpl @ RATIONALE_SUFFIX
      | SWE \<Rightarrow> py_replace PLACEHOLDER block tpl)"

subsection \<open>The body of the inner loop\<close>

definition META_KEYS :: "string list" where
  "META_KEYS = [''persona_id'', ''gender'', ''race'', ''religion'', ''class'', ''lgbtq'',
                ''marginalized'']"

definition persona_meta_of ::
  "(string \<rightharpoonup> (string \<rightharpoonup> string)) \<Rightarrow> string list
     \<Rightarrow> py_error + (string \<times> string option) list list" where
  "persona_meta_of personas pids =
     collect (\<lambda>x. case personas x of
                     None \<Rightarrow> Inl (KeyError x)
                   | Some p \<Rightarrow> Inr (map (\<lambda>k. (k, p k)) META_KEYS)) pids"

definition invoke :: "role \<Rightarrow> (nat \<Rightarrow> attempt_result) \<Rightarrow> string \<Rightarrow> string \<Rightarrow> string \<times> event list" where
  "invoke r = (case r of HR \<Rightarrow> call_model | SWE \<Rightarrow> call_gemini)"

definition parse_response ::
  "role \<Rightarrow> string \<Rightarrow> string list \<Rightarrow> py_error + (string \<times> string \<times> string list)" where
  "parse_response r = (case r of HR \<Rightarrow> parse_response_hr | SWE \<Rightarrow> parse_response_swe)"

text \<open>
  One scenario that is not skipped, from the construction of the prompt to the pacing
  sleep. The result is the exception that ended it, if any, and its effects in order.
\<close>

definition process_item ::
  "role \<Rightarrow> config \<Rightarrow> world \<Rightarrow> variant \<Rightarrow> string \<Rightarrow> string \<Rightarrow> string \<Rightarrow> nat
     \<Rightarrow> py_error option \<times> event list" where
  "process_item r cfg w var block style_key tpl idx_global =
     (let prompt = render_prompt r tpl block;
          scenario = variant_id var @ ''_'' @ style_key @ ''_'' @ ROLE_TAG r
      in case pick_api_key (api_keys cfg) (int idx_global) of
           Inl e \<Rightarrow> (Some e, [])
         | Inr api_key \<Rightarrow>
             (case invoke r (endpoint w idx_global) api_key prompt of
                (resp, evs) \<Rightarrow>
                  (case parse_response r resp (persona_ids var) of
                     Inl e \<Rightarrow> (Some e, evs)
                   | Inr (rat, selb, sel_ids) \<Rightarrow>
                       (case persona_meta_of (id2p cfg) (persona_ids var) of
                          Inl e \<Rightarrow> (Some e, evs)
                        | Inr meta \<Rightarrow>
                            (None,
                             evs @
                             [Write idx_global
                                \<lparr>scenario_id = scenario,
                                 role_tag = ROLE_TAG r,
                                 prompt_style = style_key,
                                 rec_persona_ids = persona_ids var,
                                 persona_meta = meta,
                                 prompt_text = prompt,
                                 response_text = resp,
                                 rationale_text = rat,
                                 selection_line = selb,
                                 selected_persona_ids = sel_ids,
                                 timestamp_utc = clock w idx_global\<rparr>,
                              SaveCheckpoint idx_global,
                              Sleep DELAY_SECONDS])))))"

subsection \<open>The loops of main\<close>

text \<open>
  The inner loop over \<open>enumerate(style_items, 1)\<close>: the variable \<open>done\<close> is threaded
  through, the effects are collected, an exception ends the loop.
\<close>

fun style_loop ::
  "role \<Rightarrow> config \<Rightarrow> world \<Rightarrow> nat \<Rightarrow> variant \<Rightarrow> string \<Rightarrow> (nat \<times> string \<times> string) list \<Rightarrow> nat
     \<Rightarrow> py_error option \<times> nat \<times> event list" where
  "style_loop r cfg w vi var block [] done = (None, done, [])"
| "style_loop r cfg w vi var block ((si, style_key, tpl) # rest) done =
     (let idx_global = (vi - 1) * length (style_items cfg) + si in
      if idx_global \<le> done then style_loop r cfg w vi var block rest done
      else (case process_item r cfg w var block style_key tpl idx_global of
              (Some e, evs) \<Rightarrow> (Some e, done, evs)
            | (None, evs) \<Rightarrow>
                (case style_loop r cfg w vi var block rest idx_global of
                   (res, d, evs') \<Rightarrow> (res, d, evs @ evs'))))"

text \<open>The outer loop over \<open>enumerate(variants, 1)\<close>, with the break of a dry run.\<close>

fun variant_loop ::
  "role \<Rightarrow> config \<Rightarrow> world \<Rightarrow> bool \<Rightarrow> (nat \<times> variant) list \<Rightarrow> nat
     \<Rightarrow> py_error option \<times> nat \<times> event list" where
  "variant_loop r cfg w dry_run [] done = (None, done, [])"
| "variant_loop r cfg w dry_run ((vi, var) # rest) done =
     (if dry_run \<and> vi > DRY_RUN_LIMIT r then (None, done, [])
      else (case candidates_block r cfg var of
              Inl e \<Rightarrow> (Some e, done, [])
            | Inr block \<Rightarrow>
                (case style_loop r cfg w vi var block (enumerate 1 (style_items cfg)) done of
                   (Some e, d, evs) \<Rightarrow> (Some e, d, evs)
                 | (None, d, evs) \<Rightarrow>
                     (case variant_loop r cfg w dry_run rest d of
                        (res, d', evs') \<Rightarrow> (res, d', evs @ evs')))))"

text \<open>\<open>load_checkpoint\<close>: the content of the checkpoint file, \<open>0\<close> when there is none.\<close>

definition load_checkpoint :: "nat option \<Rightarrow> nat" where
  "load_checkpoint cp = (case cp of None \<Rightarrow> 0 | Some n \<Rightarrow> n)"

text \<open>
  \<open>main\<close>, given the checkpoint file found at its start: the exception that ended it, if
  any, and all its effects in order. After the loops the checkpoint file is removed when
  \<open>done >= total\<close>.
\<close>

definition main :: "role \<Rightarrow> config \<Rightarrow> world \<Rightarrow> bool \<Rightarrow> nat option \<Rightarrow> py_error option \<times> event list" where
  "main r cfg w dry_run cp =
     (let total = length (variants cfg) * length (style_items cfg);
          done = load_checkpoint cp
      in case variant_loop r cfg w dry_run (enumerate 1 (variants cfg)) done of
           (Some e, d, evs) \<Rightarrow> (Some e, evs)
         | (None, d, evs) \<Rightarrow> (None, evs @ (if d \<ge> total then [Unlink] else [])))"

subsection \<open>Files\<close>

text \<open>
  The run directory: the checkpoint file and the run logs by file name. The name of the
  log of a process holds the second at which the process started.
\<close>

record disk =
  checkpoint :: "nat option"
  run_log :: "string \<Rightarrow> (nat \<times> invocation_record) list"

fun apply_event :: "string \<Rightarrow> disk \<Rightarrow> event \<Rightarrow> disk" where
  "apply_event ts d (Write i rec) = d\<lparr>run_log := (run_log d)(ts := run_log d ts @ [(i, rec)])\<rparr>"
| "apply_event ts d (SaveCheckpoint n) = d\<lparr>checkpoint := Some n\<rparr>"
| "apply_event ts d Unlink = d\<lparr>checkpoint := None\<rparr>"
| "apply_event ts d (Request k p) = d"
| "apply_event ts d (Sleep t) = d"

text \<open>
  One process started at second \<open>ts\<close> on a disk: it reads the checkpoint, runs \<open>main\<close>
  and leaves its effects on the disk. A process killed from outside leaves the first
  \<open>n\<close> of its effects only (\<open>kill = Some n\<close>).
\<close>

definition run_process ::
  "role \<Rightarrow> config \<Rightarrow> world \<Rightarrow> bool \<Rightarrow> string \<Rightarrow> nat option \<Rightarrow> disk \<Rightarrow> disk" where
  "run_process r cfg w dry_run ts kill d =
     (let evs = snd (main r cfg w dry_run (checkpoint d))
      in foldl (apply_event ts) d (case kill of None \<Rightarrow> evs | Some n \<Rightarrow> take n evs))"

subsection \<open>Notions used to state the properties of a run\<close>

text \<open>
  Well-formed inputs: there is a key, and every candidate of every variant has a persona
  with the resume of the role. On such inputs \<open>main\<close> raises nothing.
\<close>

definition wf_inputs :: "role \<Rightarrow> config \<Rightarrow> bool" where
  "wf_inputs r cfg =
     (api_keys cfg \<noteq> []
      \<and> list_all
          (\<lambda>var. list_all
                   (\<lambda>p. case id2p cfg p of
                          None \<Rightarrow> False
                        | Some d \<Rightarrow> d (resume_field r) \<noteq> None)
                   (persona_ids var))
          (variants cfg))"

definition block_of :: "role \<Rightarrow> config \<Rightarrow> variant \<Rightarrow> string" where
  "block_of r cfg var = (case candidates_block r cfg var of Inr b \<Rightarrow> b | Inl e \<Rightarrow> [])"

text \<open>
  The scenario feed of the specification: every (variant, style) pair with its global
  index, variant-major and style-minor, as the two loops enumerate them.
\<close>

definition variant_feed :: "config \<Rightarrow> nat \<times> variant \<Rightarrow> (nat \<times> variant \<times> string \<times> string) list" where
  "variant_feed cfg row =
     (case row of
        (vi, var) \<Rightarrow>
          map (\<lambda>(si, style_key, tpl).
                 ((vi - 1) * length (style_items cfg) + si, var, style_key, tpl))
            (enumerate 1 (style_items cfg)))"

definition scenario_feed :: "config \<Rightarrow> (nat \<times> variant \<times> string \<times> string) list" where
  "scenario_feed cfg = concat (map (variant_feed cfg) (enumerate 1 (variants cfg)))"

definition total_scenarios :: "config \<Rightarrow> nat" where
  "total_scenarios cfg = length (variants cfg) * length (style_items cfg)"

text \<open>The effects of processing one scenario of the feed.\<close>

definition scenario_events ::
  "role \<Rightarrow> config \<Rightarrow> world \<Rightarrow> nat \<times> variant \<times> string \<times> string \<Rightarrow> event list" where
  "scenario_events r cfg w sc =
     (case sc of
        (idx, var, style_key, tpl) \<Rightarrow>
          snd (process_item r cfg w var (block_of r cfg var) style_key tpl idx))"

text \<open>The indices written to the log and the values saved to the checkpoint, in order.\<close>

definition written :: "event list \<Rightarrow> nat list" where
  "written evs = concat (map (\<lambda>e. case e of Write i rec \<Rightarrow> [i] | _ \<Rightarrow> []) evs)"

definition saved :: "event list \<Rightarrow> nat list" where
  "saved evs = concat (map (\<lambda>e. case e of SaveCheckpoint n \<Rightarrow> [n] | _ \<Rightarrow> []) evs)"

text \<open>
  The positions of a selection text resolved against the candidates, before duplicates
  collapse, and the texts on which no \<open>int(n)\<close> raises: those whose runs of digits
  all have at most \<open>INT_MAX_STR_DIGITS\<close> digits.
\<close>

definition resolve :: "string list \<Rightarrow> string list \<Rightarrow> string list" where
  "resolve pids nums =
     map (\<lambda>n. pids ! nat (n - 1))
       (filter (\<lambda>n. 1 \<le> n \<and> n \<le> int (length pids)) (map decimal_value nums))"

definition int_safe :: "string \<Rightarrow> bool" where
  "int_safe line = list_all (\<lambda>n. length n \<le> INT_MAX_STR_DIGITS) (findall_digits line)"

text \<open>
  The answers of the endpoint that a run can meet, every attempt of every scenario, hold
  no run of more than \<open>INT_MAX_STR_DIGITS\<close> digits: then no \<open>int(n)\<close> of the run raises.
\<close>

definition answers_safe :: "config \<Rightarrow> world \<Rightarrow> bool" where
  "answers_safe cfg w =
     list_all
       (\<lambda>idx. list_all
                (\<lambda>attempt. case endpoint w idx attempt of
                               Raises e \<Rightarrow> True
                             | Returns raw \<Rightarrow> int_safe raw)
                [1..<MAX_RETRIES + 1])
       [1..<total_scenarios cfg + 1]"

section \<open>Properties\<close>

subsection \<open>Credential rotation\<close>

lemma py_index_in_range:
  assumes "0 \<le> j" and "j < int (length xs)"
  shows "py_index xs j = Inr (xs ! nat j)"
  using assms by (simp add: py_index_def)

lemma key_slot_range:
  assumes "0 < n"
  shows "0 \<le> key_slot b n i \<and> key_slot b n i < int n"
  using assms by (simp add: key_slot_def)

lemma key_slot_450_2:
  assumes "1 \<le> i" "i \<le> 1350"
  shows "key_slot 450 2 i = (if 451 \<le> i \<and> i \<le> 900 then 1 else 0)"
proof -
  have "(i - 1) div 450 = (if i \<le> 450 then 0 else if i \<le> 900 then 1 else 2)"
    using assms by auto
  then show ?thesis
    using assms by (auto simp: key_slot_def)
qed

text \<open>
  Claim C4. For every global index \<open>i \<ge> 1\<close>, at least two credentials and a block
  size of at least one, the rotator returns, without raising, the credential at position
  \<open>((i - 1) div block_size) mod num_credentials\<close>, a position inside the list that
  depends on \<open>i\<close> and the two sizes only. With the source's block size of 450 and two
  credentials, indices 1 to 450 get credential 0, indices 451 to 900 credential 1 and
  indices 901 to 1350 credential 0 again.
\<close>

theorem C4_credential_rotation:
  assumes "1 \<le> i" and "2 \<le> length keys" and "1 \<le> bs"
  shows "pick_api_key_sized bs keys i
           = Inr (keys ! nat (((i - 1) div bs) mod int (length keys)))
       \<and> nat (((i - 1) div bs) mod int (length keys)) < length keys
       \<and> (length keys = 2 \<and> i \<le> 450 \<longrightarrow> pick_api_key keys i = Inr (keys ! 0))
       \<and> (length keys = 2 \<and> 451 \<le> i \<and> i \<le> 900 \<longrightarrow> pick_api_key keys i = Inr (keys ! 1))
       \<and> (length keys = 2 \<and> 901 \<le> i \<and> i \<le> 1350 \<longrightarrow> pick_api_key keys i = Inr (keys ! 0))"
proof -
  have n: "0 < length keys" "keys \<noteq> []" using assms(2) by auto
  have r: "0 \<le> key_slot bs (length keys) i" "key_slot bs (length keys) i < int (length keys)"
    using key_slot_range [OF n(1)] by auto
  have a: "pick_api_key_sized bs keys i
           = Inr (keys ! nat (((i - 1) div bs) mod int (length keys)))"
    using py_index_in_range [OF r] n assms(3)
    by (simp add: pick_api_key_sized_def key_slot_def)
  have b: "nat (((i - 1) div bs) mod int (length keys)) < length keys"
    using r by (simp add: key_slot_def)
  have p: "pick_api_key keys i = Inr (keys ! nat (if 451 \<le> i \<and> i \<le> 900 then 1 else 0))"
    if "length keys = 2" "i \<le> 1350"
  proof -
    have "key_slot 450 (length keys) i = (if 451 \<le> i \<and> i \<le> 900 then 1 else 0)"
      using key_slot_450_2 [of i] assms(1) that by simp
    moreover have "py_index keys (key_slot 450 (length keys) i)
        = Inr (keys ! nat (key_slot 450 (length keys) i))"
      by (rule py_index_in_range) (use key_slot_range [OF n(1)] in auto)
    ultimately show ?thesis
      using n by (simp add: pick_api_key_def pick_api_key_sized_def PROMPTS_PER_KEY_def)
  qed
  have c: "length keys = 2 \<and> i \<le> 450 \<longrightarrow> pick_api_key keys i = Inr (keys ! 0)"
    using p by simp
  have d: "length keys = 2 \<and> 451 \<le> i \<and> i \<le> 900 \<longrightarrow> pick_api_key keys i = Inr (keys ! 1)"
    using p by simp
  have e: "length keys = 2 \<and> 901 \<le> i \<and> i \<le> 1350 \<longrightarrow> pick_api_key keys i = Inr (keys ! 0)"
    using p by simp
  from a b c d e show ?thesis by blast
qed

theorem C4_credential_rotation_witness:
  "pick_api_key_sized 450 [''k1'', ''k2''] 451 = Inr ''k2''
   \<and> pick_api_key [''k1'', ''k2''] 451 = Inr ''k2''"
  using C4_credential_rotation [of 451 "[''k1'', ''k2'']" 450]
  by simp

subsection \<open>Selection resolution\<close>

lemma set_first_mentions: "set (first_mentions xs) = set xs"
  by (induction xs) auto

lemma distinct_first_mentions: "distinct (first_mentions xs)"
  by (induction xs) (auto simp: set_first_mentions)

lemma py_int_safe: "length n \<le> INT_MAX_STR_DIGITS \<Longrightarrow> py_int n = Inr (decimal_value n)"
  by (simp add: py_int_def)

lemma py_int_raises: "INT_MAX_STR_DIGITS < length n \<Longrightarrow> \<exists>msg. py_int n = Inl (ValueError msg)"
  by (simp add: py_int_def)

lemma selection_loop_spec:
  "distinct sel \<Longrightarrow> list_all (\<lambda>n. length n \<le> INT_MAX_STR_DIGITS) nums \<Longrightarrow>
   selection_loop pids sel nums
     = Inr (sel @ filter (\<lambda>y. y \<notin> set sel) (first_mentions (resolve pids nums)))"
proof (induction nums arbitrary: sel)
  case Nil
  then show ?case by (simp add: resolve_def)
next
  case (Cons n nums)
  let ?i = "decimal_value n - 1"
  from Cons.prems(2) have v: "py_int n = Inr (decimal_value n)"
    and rest: "list_all (\<lambda>n. length n \<le> INT_MAX_STR_DIGITS) nums"
    by (simp_all add: py_int_safe)
  show ?case
  proof (cases "0 \<le> ?i \<and> ?i < int (length pids)")
    case False
    then have "resolve pids (n # nums) = resolve pids nums"
      by (auto simp: resolve_def)
    with False Cons.IH [OF Cons.prems(1) rest] v show ?thesis by (auto simp: Let_def)
  next
    case True
    then have r: "resolve pids (n # nums) = pids ! nat ?i # resolve pids nums"
      by (auto simp: resolve_def)
    have ix: "py_index pids ?i = Inr (pids ! nat ?i)"
      using True by (simp add: py_index_def)
    show ?thesis
    proof (cases "pids ! nat ?i \<in> set sel")
      case In: True
      have "filter (\<lambda>y. y \<notin> set sel) (filter (\<lambda>y. y \<noteq> pids ! nat ?i) (first_mentions (resolve pids nums)))
          = filter (\<lambda>y. y \<notin> set sel) (first_mentions (resolve pids nums))"
        using In by (auto simp: filter_filter intro: filter_cong)
      with True In ix r v Cons.IH [OF Cons.prems(1) rest] show ?thesis by (auto simp: Let_def)
    next
      case Out: False
      have d: "distinct (sel @ [pids ! nat ?i])" using Out Cons.prems by simp
      have "filter (\<lambda>y. y \<notin> set (sel @ [pids ! nat ?i])) (first_mentions (resolve pids nums))
          = filter (\<lambda>y. y \<notin> set sel) (filter (\<lambda>y. y \<noteq> pids ! nat ?i) (first_mentions (resolve pids nums)))"
        by (auto simp: filter_filter intro: filter_cong)
      with True Out ix r v Cons.IH [OF d rest] show ?thesis by (auto simp: Let_def)
    qed
  qed
qed

lemma selection_loop_raises:
  "\<not> list_all (\<lambda>n. length n \<le> INT_MAX_STR_DIGITS) nums \<Longrightarrow>
   \<exists>msg. selection_loop pids sel nums = Inl (ValueError msg)"
proof (induction nums arbitrary: sel)
  case Nil
  then show ?case by simp
next
  case (Cons n nums)
  show ?case
  proof (cases "length n \<le> INT_MAX_STR_DIGITS")
    case True
    with Cons.prems have rest: "\<not> list_all (\<lambda>n. length n \<le> INT_MAX_STR_DIGITS) nums"
      by simp
    have v: "py_int n = Inr (decimal_value n)" using True by (rule py_int_safe)
    have ix: "0 \<le> i \<and> i < int (length pids) \<Longrightarrow> py_index pids i = Inr (pids ! nat i)" for i
      by (simp add: py_index_def)
    show ?thesis
      using Cons.IH [OF rest] v ix [of "decimal_value n - 1"]
      by (simp add: Let_def)
  next
    case False
    then obtain msg where "py_int n = Inl (ValueError msg)"
      using py_int_raises [of n] by auto
    then show ?thesis by simp
  qed
qed

lemma parse_selection_spec:
  "int_safe line \<Longrightarrow>
   parse_selection line pids = Inr (first_mentions (resolve pids (findall_digits line)))"
  using selection_loop_spec [of "[]" "findall_digits line" pids]
  by (simp add: parse_selection_def int_safe_def)

lemma parse_selection_raises:
  "\<not> int_safe line \<Longrightarrow> \<exists>msg. parse_selection line pids = Inl (ValueError msg)"
  using selection_loop_raises [of "findall_digits line" pids "[]"]
  by (simp add: parse_selection_def int_safe_def)

lemma digit_runs_no_digit:
  "\<forall>c\<in>set line. \<not> py_isdigit c \<Longrightarrow> digit_runs [] line = []"
  by (induction line) auto

lemma digit_runs_all_digits:
  "\<forall>c\<in>set line. py_isdigit c \<Longrightarrow> cur @ line \<noteq> [] \<Longrightarrow> digit_runs cur line = [cur @ line]"
  by (induction line arbitrary: cur) auto

lemma findall_example:
  "findall_digits ''1, 99, 3'' = [''1'', ''99'', ''3'']"
  "findall_digits ''10, 11'' = [''10'', ''11'']"
  by (simp_all add: findall_digits_def py_isdigit_def)

lemma decimal_value_examples:
  "decimal_value ''1'' = 1" "decimal_value ''99'' = 99" "decimal_value ''3'' = 3"
  "decimal_value ''10'' = 10" "decimal_value ''11'' = 11"
  by (simp_all add: decimal_value_def)

lemma int_safe_short: "length line \<le> INT_MAX_STR_DIGITS \<Longrightarrow> int_safe line"
proof -
  have "n \<in> set (digit_runs cur s) \<Longrightarrow> length n \<le> length cur + length s" for n cur s
    by (induction s arbitrary: cur) (auto split: if_splits, fastforce+)
  from this [of _ "[]" line] show "length line \<le> INT_MAX_STR_DIGITS \<Longrightarrow> int_safe line"
    by (fastforce simp: int_safe_def findall_digits_def list_all_iff)
qed

lemma examples_eleven:
  assumes "length pids = 11" "distinct pids"
  shows "parse_selection ''1, 99, 3'' pids = Inr [pids ! 0, pids ! 2]"
    and "parse_selection ''10, 11'' pids = Inr [pids ! 9, pids ! 10]"
proof -
  have s: "int_safe ''1, 99, 3''" "int_safe ''10, 11''"
    by (rule int_safe_short, simp add: INT_MAX_STR_DIGITS_def)+
  have "pids ! 0 \<noteq> pids ! 2" "pids ! 9 \<noteq> pids ! 10"
    using assms by (simp_all add: nth_eq_iff_index_eq)
  then show "parse_selection ''1, 99, 3'' pids = Inr [pids ! 0, pids ! 2]"
    and "parse_selection ''10, 11'' pids = Inr [pids ! 9, pids ! 10]"
    using assms(1)
    by (simp_all add: parse_selection_spec [OF s(1)] parse_selection_spec [OF s(2)]
          findall_example resolve_def decimal_value_examples)
qed

text \<open>The decimal rendering of a number reads back as that number.\<close>

lemma digit_char:
  assumes "k < 10"
  shows "py_isdigit (''0123456789'' ! k) \<and> int (of_char (''0123456789'' ! k)) - 48 = int k"
proof -
  from assms have "k = 0 \<or> k = 1 \<or> k = 2 \<or> k = 3 \<or> k = 4 \<or> k = 5 \<or> k = 6
    \<or> k = 7 \<or> k = 8 \<or> k = 9"
    by presburger
  then show ?thesis by (elim disjE) (simp_all add: py_isdigit_def)
qed

lemma decimal_value_snoc:
  "decimal_value (n @ [c]) = 10 * decimal_value n + (int (of_char c) - 48)"
  by (simp add: decimal_value_def)

lemma py_str_digits:
  "py_str n \<noteq> [] \<and> (\<forall>c\<in>set (py_str n). py_isdigit c) \<and> decimal_value (py_str n) = int n"
proof (induction n rule: py_str.induct)
  case (1 n)
  show ?case
  proof (cases "n < 10")
    case True
    then have "py_str n = [''0123456789'' ! n]" by (subst py_str.simps) simp
    with digit_char [OF True] show ?thesis by (simp add: decimal_value_def)
  next
    case False
    then have e: "py_str n = py_str (n div 10) @ [''0123456789'' ! (n mod 10)]"
      by (subst py_str.simps) simp
    have m: "n mod 10 < 10" by simp
    have ar: "10 * int (n div 10) + int (n mod 10) = int n" by presburger
    from 1 [OF False] digit_char [OF m] ar show ?thesis
      unfolding e decimal_value_snoc by (auto simp del: py_str.simps)
  qed
qed

lemma parse_selection_py_str:
  assumes "1 \<le> n" "n \<le> length pids" "length (py_str n) \<le> INT_MAX_STR_DIGITS"
  shows "parse_selection (py_str n) pids = Inr [pids ! (n - 1)]"
proof -
  from py_str_digits [of n] have a: "py_str n \<noteq> []" "\<forall>c\<in>set (py_str n). py_isdigit c"
    and v: "decimal_value (py_str n) = int n" by blast+
  from digit_runs_all_digits [of "py_str n" "[]"] a
  have f: "findall_digits (py_str n) = [py_str n]" by (simp add: findall_digits_def del: py_str.simps)
  have s: "int_safe (py_str n)" using assms(3) unfolding int_safe_def f by simp
  have "nat (int n - 1) = n - 1" by simp
  then show ?thesis
    unfolding parse_selection_spec [OF s] f resolve_def using assms(1,2) v
    by (simp del: py_str.simps)
qed

lemma long_run_unsafe: "\<not> int_safe (replicate 4301 CHR ''1'')"
proof -
  have "\<forall>c\<in>set (replicate 4301 CHR ''1''). py_isdigit c" by (simp add: py_isdigit_def)
  moreover have "[] @ replicate 4301 CHR ''1'' \<noteq> []" by simp
  ultimately have "findall_digits (replicate 4301 CHR ''1'') = [replicate 4301 CHR ''1'']"
    unfolding findall_digits_def using digit_runs_all_digits [of "replicate 4301 CHR ''1''" "[]"]
    by simp
  then show ?thesis by (simp add: int_safe_def INT_MAX_STR_DIGITS_def)
qed

text \<open>
  Claim C7. \<open>parse_selection\<close> takes the digit runs of the text from left to right, reads
  each as a 1-based position, drops the positions outside \<open>1 .. len(persona_ids)\<close>,
  replaces the others by the identifier at that position and collapses duplicates to
  their first mention: this is what it returns on every text whose digit runs have at
  most \<open>INT_MAX_STR_DIGITS\<close> digits each. On every other text \<open>int(n)\<close> raises
  \<open>ValueError\<close> and \<open>parse_selection\<close> returns nothing: a run of 4301 digits is a
  position out of range that is not dropped. The decimal numeral of a position in range
  selects the candidate at that position; the text \<open>1, 99, 3\<close> against eleven distinct
  candidates gives the first and the third candidate, the text \<open>10, 11\<close> the tenth and
  the eleventh; a text without a digit gives the empty selection.
\<close>

theorem C7_selection_resolution:
  "(int_safe line \<longrightarrow>
      parse_selection line pids
        = Inr (first_mentions
                 (map (\<lambda>n. pids ! nat (n - 1))
                    (filter (\<lambda>n. 1 \<le> n \<and> n \<le> int (length pids))
                       (map decimal_value (findall_digits line))))))
   \<and> (\<not> int_safe line \<longrightarrow> (\<exists>msg. parse_selection line pids = Inl (ValueError msg)))
   \<and> \<not> int_safe (replicate 4301 CHR ''1'')
   \<and> (1 \<le> n \<and> n \<le> length pids \<and> length (py_str n) \<le> INT_MAX_STR_DIGITS
        \<longrightarrow> parse_selection (py_str n) pids = Inr [pids ! (n - 1)])
   \<and> (length pids = 11 \<and> distinct pids
        \<longrightarrow> parse_selection ''1, 99, 3'' pids = Inr [pids ! 0, pids ! 2]
          \<and> parse_selection ''10, 11'' pids = Inr [pids ! 9, pids ! 10])
   \<and> ((\<forall>c\<in>set line. \<not> py_isdigit c) \<longrightarrow> parse_selection line pids = Inr [])"
proof -
  have a: "int_safe line \<longrightarrow>
      parse_selection line pids
        = Inr (first_mentions
                 (map (\<lambda>n. pids ! nat (n - 1))
                    (filter (\<lambda>n. 1 \<le> n \<and> n \<le> int (length pids))
                       (map decimal_value (findall_digits line)))))"
    using parse_selection_spec [of line pids] by (simp add: resolve_def)
  have b: "\<not> int_safe line \<longrightarrow> (\<exists>msg. parse_selection line pids = Inl (ValueError msg))"
    using parse_selection_raises [of line pids] by blast
  have c: "(\<forall>c\<in>set line. \<not> py_isdigit c) \<longrightarrow> parse_selection line pids = Inr []"
    using digit_runs_no_digit [of line]
    by (simp add: parse_selection_def findall_digits_def)
  have d: "1 \<le> n \<and> n \<le> length pids \<and> length (py_str n) \<le> INT_MAX_STR_DIGITS
        \<longrightarrow> parse_selection (py_str n) pids = Inr [pids ! (n - 1)]"
    using parse_selection_py_str [of n pids] by blast
  have e: "length pids = 11 \<and> distinct pids
        \<longrightarrow> parse_selection ''1, 99, 3'' pids = Inr [pids ! 0, pids ! 2]
          \<and> parse_selection ''10, 11'' pids = Inr [pids ! 9, pids ! 10]"
    using examples_eleven [of pids] by blast
  from a b c d e long_run_unsafe show ?thesis by blast
qed

theorem C7_selection_resolution_witness:
  "parse_selection ''1, 99, 3''
      [''a'', ''b'', ''c'', ''d'', ''e'', ''f'', ''g'', ''h'', ''i'', ''j'', ''k'']
     = Inr [''a'', ''c'']
   \<and> parse_selection ''10, 11''
      [''a'', ''b'', ''c'', ''d'', ''e'', ''f'', ''g'', ''h'', ''i'', ''j'', ''k'']
     = Inr [''j'', ''k'']
   \<and> parse_selection ''none''
      [''a'', ''b'', ''c'', ''d'', ''e'', ''f'', ''g'', ''h'', ''i'', ''j'', ''k'']
     = Inr []
   \<and> (\<exists>msg. parse_selection (replicate 4301 CHR ''1'')
               [''a'', ''b'', ''c'', ''d'', ''e'', ''f'', ''g'', ''h'', ''i'', ''j'', ''k'']
             = Inl (ValueError msg))"
proof -
  let ?pids = "[''a'', ''b'', ''c'', ''d'', ''e'', ''f'', ''g'', ''h'', ''i'', ''j'', ''k'']"
  have h1: "length ?pids = 11 \<and> distinct ?pids" by simp
  have h2: "\<forall>c\<in>set ''none''. \<not> py_isdigit c" by (simp add: py_isdigit_def)
  from C7_selection_resolution [of "''none''" ?pids 1] h1 h2
  have a: "parse_selection ''1, 99, 3'' ?pids = Inr [?pids ! 0, ?pids ! 2]"
    and b: "parse_selection ''10, 11'' ?pids = Inr [?pids ! 9, ?pids ! 10]"
    and c: "parse_selection ''none'' ?pids = Inr []"
    by blast+
  from C7_selection_resolution [of "replicate 4301 CHR ''1''" ?pids 1]
  have d: "\<exists>msg. parse_selection (replicate 4301 CHR ''1'') ?pids = Inl (ValueError msg)"
    by blast
  from a b c d show ?thesis by simp
qed

subsection \<open>The matcher against the meaning of the patterns\<close>

lemma lit_prefix_sound:
  "lit_prefix l s = Some (w, r) \<Longrightarrow> s = w @ r \<and> ci_match l w"
  unfolding ci_match_def
proof (induction l s arbitrary: w r rule: lit_prefix.induct)
  case (1 s) then show ?case by simp
next
  case (2 a l) then show ?case by simp
next
  case (3 a l c cs)
  then show ?case by (auto split: if_splits)
qed

lemma lit_prefix_complete:
  "ci_match l w \<Longrightarrow> lit_prefix l (w @ r) = Some (w, r)"
  unfolding ci_match_def
  by (induction l w rule: list_all2_induct) auto

lemma match_at_sound:
  "match_at p s = Some ws \<Longrightarrow> list_all2 atom_ok p ws \<and> (\<exists>r. s = concat ws @ r)"
proof (induction p s arbitrary: ws rule: match_at.induct)
  case (1 s) then show ?case by simp
next
  case (2 l p s)
  then show ?case
    by (auto split: option.splits dest!: lit_prefix_sound)
next
  case (3 p) then show ?case by simp
next
  case (4 p c cs)
  then show ?case by (auto split: if_splits)
next
  case (5 g p) then show ?case by auto
next
  case (6 g p c cs)
  show ?case
  proof (cases "match_at p (c # cs)")
    case (Some vs)
    with 6 show ?thesis by auto
  next
    case None
    with 6 show ?thesis
      by (auto split: list.splits option.splits)
  qed
qed

lemma match_at_length: "match_at p s = Some ws \<Longrightarrow> length ws = length p"
  using match_at_sound [of p s ws] by (auto dest: list_all2_lengthD)

lemma match_at_lazy_complete:
  assumes "match_at p r \<noteq> None"
  shows "match_at (AnyLazy g # p) (w @ r) \<noteq> None"
proof (induction w)
  case Nil
  with assms show ?case by (cases r) auto
next
  case (Cons c w)
  then obtain vs where vs: "match_at (AnyLazy g # p) (w @ r) = Some vs" by auto
  then have "length vs = Suc (length p)" using match_at_length by fastforce
  then obtain v vs' where "vs = v # vs'" by (cases vs) auto
  with vs show ?case by (auto split: option.splits)
qed

lemma match_at_complete:
  "list_all2 atom_ok p ws \<Longrightarrow> match_at p (concat ws @ r) \<noteq> None"
proof (induction p ws rule: list_all2_induct)
  case Nil
  then show ?case by simp
next
  case (Cons a p w ws)
  show ?case
  proof (cases a)
    case (Lit l)
    with Cons show ?thesis
      using lit_prefix_complete [of l w "concat ws @ r"] by auto
  next
    case (AnyLazy g)
    with Cons show ?thesis
      using match_at_lazy_complete [of p "concat ws @ r" g w] by simp
  next
    case Digit
    with Cons show ?thesis by (auto split: list.splits)
  qed
qed

lemma re_search_sound:
  "re_search p s = Some ws \<Longrightarrow>
     list_all2 atom_ok p ws \<and> (\<exists>pre r. s = pre @ concat ws @ r)"
proof (induction s)
  case Nil
  then show ?case using match_at_sound [of p "[]" ws] by auto
next
  case (Cons c cs)
  show ?case
  proof (cases "match_at p (c # cs)")
    case (Some vs)
    with Cons.prems have "vs = ws" by simp
    with Some match_at_sound [of p "c # cs" ws] show ?thesis
      by (metis append_Nil)
  next
    case None
    with Cons obtain pre r where "list_all2 atom_ok p ws" "cs = pre @ concat ws @ r" by auto
    then show ?thesis by (metis append_Cons)
  qed
qed

lemma re_search_of_match: "match_at p s \<noteq> None \<Longrightarrow> re_search p s \<noteq> None"
  by (cases s) (auto split: option.splits)

lemma re_search_complete:
  "list_all2 atom_ok p ws \<Longrightarrow> re_search p (pre @ concat ws @ r) \<noteq> None"
proof (induction pre)
  case Nil
  then show ?case
    using re_search_of_match [OF match_at_complete [of p ws r]] by simp
next
  case (Cons c pre)
  then show ?case by (auto split: option.splits)
qed

lemma re_search_iff:
  "re_search p s \<noteq> None \<longleftrightarrow> (\<exists>pre ws r. list_all2 atom_ok p ws \<and> s = pre @ concat ws @ r)"
  using re_search_sound [of p s] re_search_complete [of p] by (metis not_Some_eq)

subsection \<open>Model invoker: retries and validation\<close>

lemma attempts_list: "[1..<MAX_RETRIES + 1] = [1, 2, 3]"
  by (simp add: MAX_RETRIES_def upt_rec)

lemma upt_small: "[Suc 0..<2] = [Suc 0]" "[Suc 0..<3] = [Suc 0, 2]"
  by (simp_all add: upt_rec)

lemma retry_loop_requests:
  "length (filter is_request (snd (retry_loop body answer k p as))) \<le> length as"
  by (induction as) (auto simp: is_request_def split: sum.splits prod.splits)

lemma retry_all_fail:
  assumes "\<forall>a. 1 \<le> a \<and> a \<le> MAX_RETRIES \<longrightarrow> isl (body (answer a))"
  shows "retry_loop body answer k p [1..<MAX_RETRIES + 1]
     = ([], [Request k p, Sleep (BACKOFF_BASE ^ 1), Request k p, Sleep (BACKOFF_BASE ^ 2),
             Request k p])"
proof -
  have "isl (body (answer 1))" "isl (body (answer 2))" "isl (body (answer 3))"
    using assms by (simp_all add: MAX_RETRIES_def)
  then obtain e1 e2 e3 where "body (answer 1) = Inl e1" "body (answer 2) = Inl e2"
     "body (answer 3) = Inl e3"
    by (auto simp: isl_def)
  then show ?thesis
    unfolding attempts_list by (simp add: MAX_RETRIES_def)
qed

lemma retry_first_success:
  assumes "1 \<le> n" "n \<le> MAX_RETRIES"
    and "\<forall>a. 1 \<le> a \<and> a < n \<longrightarrow> isl (body (answer a))"
    and "body (answer n) = Inr txt"
  shows "retry_loop body answer k p [1..<MAX_RETRIES + 1]
     = (txt, concat (map (\<lambda>a. [Request k p, Sleep (BACKOFF_BASE ^ a)]) [1..<n]) @ [Request k p])"
proof -
  consider "n = 1" | "n = 2" | "n = 3"
    using assms(1,2) unfolding MAX_RETRIES_def by linarith
  then show ?thesis
  proof cases
    case 1
    with assms(4) show ?thesis unfolding attempts_list by simp
  next
    case 2
    with assms(3) have "isl (body (answer 1))" by simp
    then obtain e1 where "body (answer 1) = Inl e1" by (auto simp: isl_def)
    with 2 assms(4) show ?thesis
      unfolding attempts_list by (simp add: MAX_RETRIES_def upt_small)
  next
    case 3
    with assms(3) have "isl (body (answer 1))" "isl (body (answer 2))" by simp_all
    then obtain e1 e2 where "body (answer 1) = Inl e1" "body (answer 2) = Inl e2"
      by (auto simp: isl_def)
    with 3 assms(4) show ?thesis
      unfolding attempts_list by (simp add: MAX_RETRIES_def upt_small)
  qed
qed

lemma retry_result:
  "fst (retry_loop body answer k p as) = []
   \<or> (\<exists>a\<in>set as. body (answer a) = Inr (fst (retry_loop body answer k p as)))"
  by (induction as) (auto split: sum.splits prod.splits)



lemma list_all2_seven:
  assumes "list_all2 P [a1, a2, a3, a4, a5, a6, a7] ws"
  obtains w1 w2 w3 w4 w5 w6 w7 where "ws = [w1, w2, w3, w4, w5, w6, w7]"
    "P a1 w1" "P a2 w2" "P a3 w3" "P a4 w4" "P a5 w5" "P a6 w6" "P a7 w7"
  using assms by (auto simp: list_all2_Cons1)

lemma atom_ok_DigitE:
  assumes "atom_ok Digit w"
  obtains g where "w = [g]" "py_isdigit g"
  using assms by (cases w; cases "tl w") auto

lemma digit_search_iff: "re_search DIGIT_RE s \<noteq> None \<longleftrightarrow> (\<exists>c\<in>set s. py_isdigit c)"
proof
  assume "re_search DIGIT_RE s \<noteq> None"
  then obtain ws where ws: "re_search DIGIT_RE s = Some ws" by blast
  from re_search_sound [OF ws] obtain pre r where
    ok: "list_all2 atom_ok DIGIT_RE ws" and s: "s = pre @ concat ws @ r"
    by blast
  from ok obtain w where w: "ws = [w]" "atom_ok Digit w"
    unfolding DIGIT_RE_def by (auto simp: list_all2_Cons1)
  from w(2) obtain g where "w = [g]" "py_isdigit g" by (rule atom_ok_DigitE)
  with s w(1) show "\<exists>c\<in>set s. py_isdigit c" by auto
next
  assume "\<exists>c\<in>set s. py_isdigit c"
  then obtain c where c: "c \<in> set s" "py_isdigit c" by blast
  then obtain pre r where s: "s = pre @ c # r" by (auto simp: in_set_conv_decomp)
  have "list_all2 atom_ok DIGIT_RE [[c]]" using c(2) by (simp add: DIGIT_RE_def)
  from re_search_complete [OF this, of pre r] s show "re_search DIGIT_RE s \<noteq> None" by simp
qed


lemma tag_search_iff: "re_search TAG_RE s \<noteq> None \<longleftrightarrow> tag_shape s"
proof
  assume "re_search TAG_RE s \<noteq> None"
  then obtain ws where ws: "re_search TAG_RE s = Some ws" by blast
  from re_search_sound [OF ws] obtain pre r where
    ok: "list_all2 atom_ok TAG_RE ws" and s: "s = pre @ concat ws @ r"
    by blast
  from ok [unfolded TAG_RE_def] obtain o1 b c1 m t d gs where
    w: "ws = [o1, b, c1, m, t, d, gs]"
    and t1: "atom_ok (Lit ''<explanation>'') o1"
    and t2: "atom_ok (Lit ''</explanation>'') c1"
    and t3: "atom_ok (Lit ''<top-3>'') t"
    and t4: "atom_ok Digit gs"
    by (rule list_all2_seven)
  from t4 obtain g where g: "gs = [g]" "py_isdigit g" by (rule atom_ok_DigitE)
  have e: "s = pre @ o1 @ b @ c1 @ m @ t @ d @ [g] @ r"
    unfolding s w g(1) by simp
  have "ci_match ''<explanation>'' o1" "ci_match ''</explanation>'' c1" "ci_match ''<top-3>'' t"
    using t1 t2 t3 by (simp_all only: atom_ok.simps)
  with e g(2) show "tag_shape s"
    unfolding tag_shape_def by blast
next
  assume "tag_shape s"
  then obtain pre o1 b c1 m t d g rest where
    s: "s = pre @ o1 @ b @ c1 @ m @ t @ d @ [g] @ rest"
    and t: "ci_match ''<explanation>'' o1" "ci_match ''</explanation>'' c1"
       "ci_match ''<top-3>'' t" "py_isdigit g"
    unfolding tag_shape_def by blast
  have d: "atom_ok Digit [g]" using t(4) by simp
  have a: "atom_ok (AnyLazy False) x" for x by simp
  have l: "atom_ok (Lit ''<explanation>'') o1" "atom_ok (Lit ''</explanation>'') c1"
      "atom_ok (Lit ''<top-3>'') t"
    using t(1-3) by (simp_all only: atom_ok.simps)
  have "list_all2 atom_ok TAG_RE [o1, b, c1, m, t, d, [g]]"
    unfolding TAG_RE_def
    by (intro list_all2_Cons [THEN iffD2] conjI l a d) simp
  from re_search_complete [OF this, of pre rest]
  have "re_search TAG_RE (pre @ concat [o1, b, c1, m, t, d, [g]] @ rest) \<noteq> None" .
  moreover have "pre @ concat [o1, b, c1, m, t, d, [g]] @ rest = s"
    unfolding s by simp
  ultimately show "re_search TAG_RE s \<noteq> None" by simp
qed


text \<open>
  Claim C5. For every behaviour of the endpoint, every prompt and every credential, each
  invoker calls the endpoint at most \<open>MAX_RETRIES\<close> times. When every attempt fails (the
  call raises, or its result fails the validation) there are exactly \<open>MAX_RETRIES\<close>
  calls, a sleep of \<open>BACKOFF_BASE ^ attempt\<close> after the first and the second and none after
  the last, and the result is the empty string. When attempt \<open>n\<close> is the first to
  succeed, the failed attempts before it are each followed by their sleep and the result is
  the accepted text. In every case the invoker returns a string, the empty one or the text
  an attempt accepted: nothing raised by an attempt reaches the caller.
\<close>

theorem C5_retry_exhaustion:
  "length (filter is_request (snd (call_model answer k p))) \<le> MAX_RETRIES
   \<and> length (filter is_request (snd (call_gemini answer k p))) \<le> MAX_RETRIES
   \<and> ((\<forall>a. 1 \<le> a \<and> a \<le> MAX_RETRIES \<longrightarrow> isl (attempt_hr (answer a)))
        \<longrightarrow> call_model answer k p
            = ([], [Request k p, Sleep (BACKOFF_BASE ^ 1), Request k p,
                    Sleep (BACKOFF_BASE ^ 2), Request k p]))
   \<and> ((\<forall>a. 1 \<le> a \<and> a \<le> MAX_RETRIES \<longrightarrow> isl (attempt_swe (answer a)))
        \<longrightarrow> call_gemini answer k p
            = ([], [Request k p, Sleep (BACKOFF_BASE ^ 1), Request k p,
                    Sleep (BACKOFF_BASE ^ 2), Request k p]))
   \<and> (\<forall>n txt. 1 \<le> n \<and> n \<le> MAX_RETRIES
          \<and> (\<forall>a. 1 \<le> a \<and> a < n \<longrightarrow> isl (attempt_hr (answer a)))
          \<and> attempt_hr (answer n) = Inr txt
        \<longrightarrow> call_model answer k p
            = (txt, concat (map (\<lambda>a. [Request k p, Sleep (BACKOFF_BASE ^ a)]) [1..<n])
                    @ [Request k p]))
   \<and> (\<forall>n txt. 1 \<le> n \<and> n \<le> MAX_RETRIES
          \<and> (\<forall>a. 1 \<le> a \<and> a < n \<longrightarrow> isl (attempt_swe (answer a)))
          \<and> attempt_swe (answer n) = Inr txt
        \<longrightarrow> call_gemini answer k p
            = (txt, concat (map (\<lambda>a. [Request k p, Sleep (BACKOFF_BASE ^ a)]) [1..<n])
                    @ [Request k p]))
   \<and> (fst (call_model answer k p) = []
        \<or> (\<exists>a. 1 \<le> a \<and> a \<le> MAX_RETRIES
               \<and> attempt_hr (answer a) = Inr (fst (call_model answer k p))))
   \<and> (fst (call_gemini answer k p) = []
        \<or> (\<exists>a. 1 \<le> a \<and> a \<le> MAX_RETRIES
               \<and> attempt_swe (answer a) = Inr (fst (call_gemini answer k p))))"
proof -
  have len: "length [1..<MAX_RETRIES + 1] = MAX_RETRIES" by simp
  have c1: "length (filter is_request (snd (call_model answer k p))) \<le> MAX_RETRIES"
    unfolding call_model_def
    using retry_loop_requests [of attempt_hr answer k p "[1..<MAX_RETRIES + 1]"] len by simp
  have c2: "length (filter is_request (snd (call_gemini answer k p))) \<le> MAX_RETRIES"
    unfolding call_gemini_def
    using retry_loop_requests [of attempt_swe answer k p "[1..<MAX_RETRIES + 1]"] len by simp
  have c3: "(\<forall>a. 1 \<le> a \<and> a \<le> MAX_RETRIES \<longrightarrow> isl (attempt_hr (answer a)))
        \<longrightarrow> call_model answer k p
            = ([], [Request k p, Sleep (BACKOFF_BASE ^ 1), Request k p,
                    Sleep (BACKOFF_BASE ^ 2), Request k p])"
    unfolding call_model_def using retry_all_fail [of attempt_hr answer k p] by blast
  have c4: "(\<forall>a. 1 \<le> a \<and> a \<le> MAX_RETRIES \<longrightarrow> isl (attempt_swe (answer a)))
        \<longrightarrow> call_gemini answer k p
            = ([], [Request k p, Sleep (BACKOFF_BASE ^ 1), Request k p,
                    Sleep (BACKOFF_BASE ^ 2), Request k p])"
    unfolding call_gemini_def using retry_all_fail [of attempt_swe answer k p] by blast
  have c5: "\<forall>n txt. 1 \<le> n \<and> n \<le> MAX_RETRIES
          \<and> (\<forall>a. 1 \<le> a \<and> a < n \<longrightarrow> isl (attempt_hr (answer a)))
          \<and> attempt_hr (answer n) = Inr txt
        \<longrightarrow> call_model answer k p
            = (txt, concat (map (\<lambda>a. [Request k p, Sleep (BACKOFF_BASE ^ a)]) [1..<n])
                    @ [Request k p])"
    unfolding call_model_def using retry_first_success [of _ attempt_hr answer _ k p] by blast
  have c6: "\<forall>n txt. 1 \<le> n \<and> n \<le> MAX_RETRIES
          \<and> (\<forall>a. 1 \<le> a \<and> a < n \<longrightarrow> isl (attempt_swe (answer a)))
          \<and> attempt_swe (answer n) = Inr txt
        \<longrightarrow> call_gemini answer k p
            = (txt, concat (map (\<lambda>a. [Request k p, Sleep (BACKOFF_BASE ^ a)]) [1..<n])
                    @ [Request k p])"
    unfolding call_gemini_def using retry_first_success [of _ attempt_swe answer _ k p] by blast
  have c7: "fst (call_model answer k p) = []
        \<or> (\<exists>a. 1 \<le> a \<and> a \<le> MAX_RETRIES
               \<and> attempt_hr (answer a) = Inr (fst (call_model answer k p)))"
    unfolding call_model_def
    using retry_result [of attempt_hr answer k p "[1..<MAX_RETRIES + 1]"] by auto
  have c8: "fst (call_gemini answer k p) = []
        \<or> (\<exists>a. 1 \<le> a \<and> a \<le> MAX_RETRIES
               \<and> attempt_swe (answer a) = Inr (fst (call_gemini answer k p)))"
    unfolding call_gemini_def
    using retry_result [of attempt_swe answer k p "[1..<MAX_RETRIES + 1]"] by auto
  from c1 c2 c3 c4 c5 c6 c7 c8 show ?thesis by blast
qed

theorem C5_retry_exhaustion_witness:
  "call_model (\<lambda>a. Raises TransportError) ''key'' ''prompt''
     = ([], [Request ''key'' ''prompt'', Sleep (3 / 2), Request ''key'' ''prompt'',
             Sleep (9 / 4), Request ''key'' ''prompt''])
   \<and> call_gemini (\<lambda>a. Returns ''no number'') ''key'' ''prompt''
     = ([], [Request ''key'' ''prompt'', Sleep (3 / 2), Request ''key'' ''prompt'',
             Sleep (9 / 4), Request ''key'' ''prompt''])"
proof -
  have s: "py_strip ''no number'' = ''no number''"
    by (simp add: py_strip_def py_isspace_def)
  have d: "re_search DIGIT_RE ''no number'' = None"
    by (simp add: DIGIT_RE_def py_isdigit_def)
  have h1: "\<forall>a. 1 \<le> a \<and> a \<le> MAX_RETRIES \<longrightarrow> isl (attempt_hr (Raises TransportError))"
    by (simp add: attempt_hr_def)
  have h2: "\<forall>a. 1 \<le> a \<and> a \<le> MAX_RETRIES \<longrightarrow> isl (attempt_swe (Returns ''no number''))"
    using s d by (simp add: attempt_swe_def)
  have p: "BACKOFF_BASE ^ 1 = 3 / 2" "BACKOFF_BASE ^ 2 = 9 / 4"
    by (simp_all add: BACKOFF_BASE_def power2_eq_square)
  show ?thesis
    using C5_retry_exhaustion [of "\<lambda>a. Raises TransportError" "''key''" "''prompt''"]
      C5_retry_exhaustion [of "\<lambda>a. Returns ''no number''" "''key''" "''prompt''"] h1 h2
    unfolding p by blast
qed

lemma attempt_hr_iff:
  "attempt_hr r = Inr txt \<longleftrightarrow> (\<exists>raw. r = Returns raw \<and> txt = py_strip raw \<and> tag_shape txt)"
  using tag_search_iff [of "py_strip (case r of Returns raw \<Rightarrow> raw | _ \<Rightarrow> [])"]
  by (cases r) (auto simp: attempt_hr_def Let_def)

lemma attempt_swe_iff:
  "attempt_swe r = Inr txt
     \<longleftrightarrow> (\<exists>raw. r = Returns raw \<and> txt = py_strip raw \<and> (\<exists>c\<in>set txt. py_isdigit c))"
  using digit_search_iff [of "py_strip (case r of Returns raw \<Rightarrow> raw | _ \<Rightarrow> [])"]
  by (cases r) (auto simp: attempt_swe_def Let_def)

lemma retry_loop_step_fail:
  "isl (body (answer a)) \<Longrightarrow>
   retry_loop body answer k p (a # rest)
     = (fst (retry_loop body answer k p rest),
        Request k p # (if a < MAX_RETRIES then [Sleep (BACKOFF_BASE ^ a)] else [])
          @ snd (retry_loop body answer k p rest))"
  by (auto simp: isl_def split: prod.splits)

text \<open>
  Claim C3, as the code has it. An attempt of the HR entry point accepts a result exactly
  when the stripped text has the shape of \<open>TAG_RE\<close>: an opening explanation tag, a closing
  explanation tag, an opening top-3 tag and a digit, in this order and up to case. An
  attempt of the SWE entry point accepts a result exactly when the stripped text holds a
  digit; it does not look for the tags. In both, an accepted attempt ends the retry loop
  with the stripped text as the result, and any other attempt counts as failed: the loop
  goes on with the attempts that remain.
\<close>

theorem C3_attempt_validation:
  "(attempt_hr r = Inr txt
      \<longleftrightarrow> (\<exists>raw. r = Returns raw \<and> txt = py_strip raw \<and> tag_shape txt))
   \<and> (attempt_swe r = Inr txt
      \<longleftrightarrow> (\<exists>raw. r = Returns raw \<and> txt = py_strip raw \<and> (\<exists>c\<in>set txt. py_isdigit c)))
   \<and> (attempt_hr (answer a) = Inr txt
        \<longrightarrow> retry_loop attempt_hr answer k p (a # rest) = (txt, [Request k p]))
   \<and> (attempt_swe (answer a) = Inr txt
        \<longrightarrow> retry_loop attempt_swe answer k p (a # rest) = (txt, [Request k p]))
   \<and> (isl (attempt_hr (answer a))
        \<longrightarrow> retry_loop attempt_hr answer k p (a # rest)
            = (fst (retry_loop attempt_hr answer k p rest),
               Request k p # (if a < MAX_RETRIES then [Sleep (BACKOFF_BASE ^ a)] else [])
                 @ snd (retry_loop attempt_hr answer k p rest)))
   \<and> (isl (attempt_swe (answer a))
        \<longrightarrow> retry_loop attempt_swe answer k p (a # rest)
            = (fst (retry_loop attempt_swe answer k p rest),
               Request k p # (if a < MAX_RETRIES then [Sleep (BACKOFF_BASE ^ a)] else [])
                 @ snd (retry_loop attempt_swe answer k p rest)))"
proof -
  have f1: "isl (attempt_hr (answer a))
        \<longrightarrow> retry_loop attempt_hr answer k p (a # rest)
            = (fst (retry_loop attempt_hr answer k p rest),
               Request k p # (if a < MAX_RETRIES then [Sleep (BACKOFF_BASE ^ a)] else [])
                 @ snd (retry_loop attempt_hr answer k p rest))"
    using retry_loop_step_fail by blast
  have f2: "isl (attempt_swe (answer a))
        \<longrightarrow> retry_loop attempt_swe answer k p (a # rest)
            = (fst (retry_loop attempt_swe answer k p rest),
               Request k p # (if a < MAX_RETRIES then [Sleep (BACKOFF_BASE ^ a)] else [])
                 @ snd (retry_loop attempt_swe answer k p rest))"
    using retry_loop_step_fail by blast
  have s1: "attempt_hr (answer a) = Inr txt
        \<longrightarrow> retry_loop attempt_hr answer k p (a # rest) = (txt, [Request k p])"
    by simp
  have s2: "attempt_swe (answer a) = Inr txt
        \<longrightarrow> retry_loop attempt_swe answer k p (a # rest) = (txt, [Request k p])"
    by simp
  have i1: "attempt_hr r = Inr txt
      \<longleftrightarrow> (\<exists>raw. r = Returns raw \<and> txt = py_strip raw \<and> tag_shape txt)"
    by (rule attempt_hr_iff)
  have i2: "attempt_swe r = Inr txt
      \<longleftrightarrow> (\<exists>raw. r = Returns raw \<and> txt = py_strip raw \<and> (\<exists>c\<in>set txt. py_isdigit c))"
    by (rule attempt_swe_iff)
  show ?thesis
    by (intro conjI) (rule i1 i2 s1 s2 f1 f2)+
qed

theorem C3_attempt_validation_witness:
  "tag_shape ''<Explanation>ok</explanation> <top-3>4''
   \<and> retry_loop attempt_hr (\<lambda>a. Returns '' <Explanation>ok</explanation> <top-3>4 '')
        ''key'' ''prompt'' [1, 2]
      = (''<Explanation>ok</explanation> <top-3>4'', [Request ''key'' ''prompt''])
   \<and> retry_loop attempt_swe (\<lambda>a. Returns ''7'') ''key'' ''prompt'' [1, 2]
      = (''7'', [Request ''key'' ''prompt''])"
proof -
  have s: "py_strip '' <Explanation>ok</explanation> <top-3>4 ''
             = ''<Explanation>ok</explanation> <top-3>4''"
    by (simp add: py_strip_def py_isspace_def)
  have m: "re_search TAG_RE ''<Explanation>ok</explanation> <top-3>4'' \<noteq> None"
    by (simp add: TAG_RE_def ci_eq_def py_isdigit_def)
  have h: "attempt_hr (Returns '' <Explanation>ok</explanation> <top-3>4 '')
             = Inr ''<Explanation>ok</explanation> <top-3>4''"
    unfolding attempt_hr_def Let_def using s m by (auto simp del: re_search.simps)
  have g: "attempt_swe (Returns ''7'') = Inr ''7''"
    by (simp add: attempt_swe_def py_strip_def py_isspace_def DIGIT_RE_def py_isdigit_def)
  show ?thesis
    using C3_attempt_validation
      [of "Returns '' <Explanation>ok</explanation> <top-3>4 ''"
          "''<Explanation>ok</explanation> <top-3>4''"
          "\<lambda>a. Returns '' <Explanation>ok</explanation> <top-3>4 ''" 1 "''key''" "''prompt''" "[2]"]
      C3_attempt_validation
      [of "Returns ''7''" "''7''" "\<lambda>a. Returns ''7''" 1 "''key''" "''prompt''" "[2]"]
      h g
    by blast
qed

text \<open>
  Claim C3 as stated fails on the SWE entry point: the text \<open>7\<close> has none of the tags,
  and \<open>call_gemini\<close> accepts it at the first attempt.
\<close>

theorem C3_counterexample:
  "attempt_swe (Returns ''7'') = Inr ''7''
   \<and> re_search [Lit ''<explanation>''] ''7'' = None
   \<and> re_search [Lit ''<top-3>''] ''7'' = None
   \<and> re_search TAG_RE ''7'' = None
   \<and> call_gemini (\<lambda>a. Returns ''7'') ''key'' ''prompt'' = (''7'', [Request ''key'' ''prompt''])"
  unfolding call_gemini_def attempts_list
  by (simp add: attempt_swe_def py_strip_def py_isspace_def DIGIT_RE_def TAG_RE_def
        py_isdigit_def ci_eq_def)

subsection \<open>Startup\<close>

lemma KEY_LIST_absent: "KEY_LIST None = []" "KEY_LIST (Some []) = []"
  by (simp_all add: KEY_LIST_def py_strip_def)

text \<open>
  Claim C9. Whenever the key list read from the environment holds fewer than two keys,
  which includes the variable being absent or empty, the module-level code of either entry
  point raises a \<open>RuntimeError\<close> and \<open>main\<close> is never called; with at least two keys
  the HR entry point raises nothing, nor does the SWE entry point once its \<open>.env\<close> file
  exists, and \<open>main\<close> runs with the keys.
\<close>

theorem C9_startup_credential_check:
  "(length (KEY_LIST env) < 2
      \<longrightarrow> startup_hr env = Inl (RuntimeError ''Need at least two keys in GOOGLE_API_KEYS'')
        \<and> (\<exists>msg. startup_swe dotenv_exists env = Inl (RuntimeError msg))
        \<and> run_module (startup_hr env) main_fn
            = Inl (RuntimeError ''Need at least two keys in GOOGLE_API_KEYS'')
        \<and> (\<exists>msg. run_module (startup_swe dotenv_exists env) main_fn = Inl (RuntimeError msg)))
   \<and> (2 \<le> length (KEY_LIST env)
      \<longrightarrow> startup_hr env = Inr (KEY_LIST env)
        \<and> startup_swe True env = Inr (KEY_LIST env)
        \<and> run_module (startup_hr env) main_fn = Inr (main_fn (KEY_LIST env))
        \<and> run_module (startup_swe True env) main_fn = Inr (main_fn (KEY_LIST env)))
   \<and> length (KEY_LIST None) < 2
   \<and> length (KEY_LIST (Some [])) < 2"
  by (simp add: startup_hr_def startup_swe_def run_module_def KEY_LIST_absent)

theorem C9_startup_credential_check_witness:
  "startup_hr (Some ''k1, k2'') = Inr [''k1'', ''k2'']
   \<and> run_module (startup_swe True (Some ''k1, k2'')) hd = Inr ''k1''
   \<and> startup_hr (Some '' k1 , ,'') = Inl (RuntimeError ''Need at least two keys in GOOGLE_API_KEYS'')
   \<and> run_module (startup_hr None) hd
        = Inl (RuntimeError ''Need at least two keys in GOOGLE_API_KEYS'')"
proof -
  have a: "KEY_LIST (Some ''k1, k2'') = [''k1'', ''k2'']"
    by (simp add: KEY_LIST_def py_strip_def py_isspace_def)
  have b: "KEY_LIST (Some '' k1 , ,'') = [''k1'']"
    by (simp add: KEY_LIST_def py_strip_def py_isspace_def)
  show ?thesis
    using C9_startup_credential_check [of "Some ''k1, k2''" True hd]
      C9_startup_credential_check [of "Some '' k1 , ,''" True hd]
      C9_startup_credential_check [of None True hd]
    unfolding a b KEY_LIST_absent by auto
qed

subsection \<open>Structural split of a response\<close>

lemma groups_EXPL_RE:
  "groups EXPL_RE [o1, b1, c1, m, t, b2, tc] = [b1, b2]"
  by (simp add: groups_def EXPL_RE_def)

lemma group_EXPL_RE:
  "re_group 1 EXPL_RE [o1, b1, c1, m, t, b2, tc] = b1"
  "re_group (Suc 0) EXPL_RE [o1, b1, c1, m, t, b2, tc] = b1"
  "re_group 2 EXPL_RE [o1, b1, c1, m, t, b2, tc] = b2"
  by (simp_all add: re_group_def groups_EXPL_RE)

lemma expl_match_shape:
  assumes "re_search EXPL_RE txt = Some ws"
  obtains pre o1 b1 c1 m t b2 tc rest where
    "ws = [o1, b1, c1, m, t, b2, tc]"
    "txt = pre @ o1 @ b1 @ c1 @ m @ t @ b2 @ tc @ rest"
    "ci_match ''<explanation>'' o1" "ci_match ''</explanation>'' c1"
    "ci_match ''<top-3>'' t" "ci_match ''</top-3>'' tc"
proof -
  from re_search_sound [OF assms] obtain pre r where
    ok: "list_all2 atom_ok EXPL_RE ws" and s: "txt = pre @ concat ws @ r"
    by blast
  from ok [unfolded EXPL_RE_def] obtain o1 b1 c1 m t b2 tc where
    w: "ws = [o1, b1, c1, m, t, b2, tc]"
    and t1: "atom_ok (Lit ''<explanation>'') o1"
    and t2: "atom_ok (Lit ''</explanation>'') c1"
    and t3: "atom_ok (Lit ''<top-3>'') t"
    and t4: "atom_ok (Lit ''</top-3>'') tc"
    by (rule list_all2_seven)
  have e: "txt = pre @ o1 @ b1 @ c1 @ m @ t @ b2 @ tc @ r"
    unfolding s w by simp
  have "ci_match ''<explanation>'' o1" "ci_match ''</explanation>'' c1"
    "ci_match ''<top-3>'' t" "ci_match ''</top-3>'' tc"
    using t1 t2 t3 t4 by (simp_all only: atom_ok.simps)
  with w e show thesis by (rule that)
qed

lemma expl_shape_matches:
  assumes "txt = pre @ o1 @ b1 @ c1 @ m @ t @ b2 @ tc @ rest"
    and "ci_match ''<explanation>'' o1" "ci_match ''</explanation>'' c1"
    and "ci_match ''<top-3>'' t" "ci_match ''</top-3>'' tc"
  shows "re_search EXPL_RE txt \<noteq> None"
proof -
  have a: "atom_ok (AnyLazy g) x" for g x by simp
  have l: "atom_ok (Lit ''<explanation>'') o1" "atom_ok (Lit ''</explanation>'') c1"
      "atom_ok (Lit ''<top-3>'') t" "atom_ok (Lit ''</top-3>'') tc"
    using assms(2-5) by (simp_all only: atom_ok.simps)
  have "list_all2 atom_ok EXPL_RE [o1, b1, c1, m, t, b2, tc]"
    unfolding EXPL_RE_def
    by (intro list_all2_Cons [THEN iffD2] conjI l a) simp
  from re_search_complete [OF this, of pre rest]
  have "re_search EXPL_RE (pre @ concat [o1, b1, c1, m, t, b2, tc] @ rest) \<noteq> None" .
  moreover have "pre @ concat [o1, b1, c1, m, t, b2, tc] @ rest = txt"
    unfolding assms(1) by simp
  ultimately show ?thesis by simp
qed

lemma split_response_match:
  assumes "re_search EXPL_RE txt = Some ws"
  shows "\<exists>pre o1 b1 c1 m t b2 tc rest.
           txt = pre @ o1 @ b1 @ c1 @ m @ t @ b2 @ tc @ rest
           \<and> ci_match ''<explanation>'' o1 \<and> ci_match ''</explanation>'' c1
           \<and> ci_match ''<top-3>'' t \<and> ci_match ''</top-3>'' tc
           \<and> split_response txt = (py_strip b1, py_strip b2)"
proof -
  from assms obtain pre o1 b1 c1 m t b2 tc rest where
    w: "ws = [o1, b1, c1, m, t, b2, tc]"
    and e: "txt = pre @ o1 @ b1 @ c1 @ m @ t @ b2 @ tc @ rest"
    and t: "ci_match ''<explanation>'' o1" "ci_match ''</explanation>'' c1"
       "ci_match ''<top-3>'' t" "ci_match ''</top-3>'' tc"
    by (rule expl_match_shape)
  have "split_response txt = (py_strip b1, py_strip b2)"
    unfolding split_response_def assms w by (simp add: group_EXPL_RE)
  with e t show ?thesis by blast
qed

lemma split_response_nomatch:
  "re_search EXPL_RE txt = None \<Longrightarrow> split_response txt = ([], txt)"
  by (simp add: split_response_def)

lemma parse_response_hr_eq:
  "resp \<noteq> [] \<Longrightarrow> parse_response_hr resp pids = parse_response_swe resp pids"
  by (simp add: parse_response_hr_def parse_response_swe_def split_response_def)

lemma roundtrip_search:
  "re_search EXPL_RE ''<explanation>Good fit.</explanation><top-3>2, 5, 5, 9</top-3>''
     = Some [''<explanation>'', ''Good fit.'', ''</explanation>'', [], ''<top-3>'',
             ''2, 5, 5, 9'', ''</top-3>'']"
  by (simp add: EXPL_RE_def ci_eq_def)

lemma roundtrip_split:
  "split_response ''<explanation>Good fit.</explanation><top-3>2, 5, 5, 9</top-3>''
     = (''Good fit.'', ''2, 5, 5, 9'')"
  unfolding split_response_def roundtrip_search
  by (simp add: group_EXPL_RE py_strip_def py_isspace_def)

lemma roundtrip_selection:
  "parse_selection ''2, 5, 5, 9''
      [''a'', ''b'', ''c'', ''d'', ''e'', ''f'', ''g'', ''h'', ''i'', ''j'', ''k'']
     = Inr [''b'', ''e'', ''i'']"
  by (simp add: parse_selection_def findall_digits_def py_isdigit_def py_int_def
        INT_MAX_STR_DIGITS_def decimal_value_def py_index_def)

lemma roundtrip_selection_general:
  assumes "length pids = 11" "distinct pids"
  shows "parse_selection ''2, 5, 5, 9'' pids = Inr [pids ! 1, pids ! 4, pids ! 8]"
proof -
  have d: "pids ! 1 \<noteq> pids ! 4" "pids ! 1 \<noteq> pids ! 8" "pids ! 4 \<noteq> pids ! 8"
    using assms by (simp_all add: nth_eq_iff_index_eq)
  have f: "findall_digits ''2, 5, 5, 9'' = [''2'', ''5'', ''5'', ''9'']"
    by (simp add: findall_digits_def py_isdigit_def)
  have i: "decimal_value ''2'' = 2" "decimal_value ''5'' = 5" "decimal_value ''9'' = 9"
    by (simp_all add: decimal_value_def)
  have s: "int_safe ''2, 5, 5, 9''"
    by (rule int_safe_short) (simp add: INT_MAX_STR_DIGITS_def)
  show ?thesis
    using assms(1) d by (simp add: parse_selection_spec [OF s] f resolve_def i)
qed

lemma fallback_response:
  assumes "re_search EXPL_RE txt = None" and "int_safe txt"
  shows "\<exists>sel. parse_selection txt pids = Inr sel
           \<and> parse_response_swe txt pids = Inr ([], txt, sel)
           \<and> (txt \<noteq> [] \<longrightarrow> parse_response_hr txt pids = Inr ([], txt, sel))"
  using assms(1) parse_selection_spec [OF assms(2), of pids]
  by (simp add: parse_response_swe_def parse_response_hr_def split_response_def)

text \<open>
  Claim C8, as the code has it. When the two-tag pattern matches, rationale and selection
  region are the contents of the explanation tag and of the top-3 tag, each with the
  whitespace at its ends stripped. When it does not match, the rationale is empty and the
  whole text is the selection region; from a text whose digit runs have at most
  \<open>INT_MAX_STR_DIGITS\<close> digits each the selection is then resolved and the three parts
  are returned, and the HR entry point does the same for every such non-empty response.
  Nothing is stated here about a text with a longer digit run. On the round-trip example the
  rationale is \<open>Good fit.\<close>, the selection region \<open>2, 5, 5, 9\<close> and the selection the
  candidates at positions 2, 5 and 9 of eleven distinct ones.
\<close>

theorem C8_structural_split:
  "(\<forall>ws. re_search EXPL_RE txt = Some ws \<longrightarrow>
       (\<exists>pre o1 b1 c1 m t b2 tc rest.
           txt = pre @ o1 @ b1 @ c1 @ m @ t @ b2 @ tc @ rest
           \<and> ci_match ''<explanation>'' o1 \<and> ci_match ''</explanation>'' c1
           \<and> ci_match ''<top-3>'' t \<and> ci_match ''</top-3>'' tc
           \<and> split_response txt = (py_strip b1, py_strip b2)))
   \<and> (re_search EXPL_RE txt = None \<longrightarrow>
        split_response txt = ([], txt)
        \<and> (int_safe txt \<longrightarrow>
             (\<exists>sel. parse_selection txt pids = Inr sel
                \<and> parse_response_swe txt pids = Inr ([], txt, sel)
                \<and> (txt \<noteq> [] \<longrightarrow> parse_response_hr txt pids = Inr ([], txt, sel)))))
   \<and> (txt \<noteq> [] \<longrightarrow> parse_response_hr txt pids = parse_response_swe txt pids)
   \<and> split_response ''<explanation>Good fit.</explanation><top-3>2, 5, 5, 9</top-3>''
        = (''Good fit.'', ''2, 5, 5, 9'')
   \<and> (length pids = 11 \<and> distinct pids \<longrightarrow>
        parse_response_swe ''<explanation>Good fit.</explanation><top-3>2, 5, 5, 9</top-3>'' pids
          = Inr (''Good fit.'', ''2, 5, 5, 9'', [pids ! 1, pids ! 4, pids ! 8])
        \<and> parse_response_hr ''<explanation>Good fit.</explanation><top-3>2, 5, 5, 9</top-3>'' pids
          = Inr (''Good fit.'', ''2, 5, 5, 9'', [pids ! 1, pids ! 4, pids ! 8]))"
proof -
  let ?rt = "''<explanation>Good fit.</explanation><top-3>2, 5, 5, 9</top-3>''"
  have a: "\<forall>ws. re_search EXPL_RE txt = Some ws \<longrightarrow>
       (\<exists>pre o1 b1 c1 m t b2 tc rest.
           txt = pre @ o1 @ b1 @ c1 @ m @ t @ b2 @ tc @ rest
           \<and> ci_match ''<explanation>'' o1 \<and> ci_match ''</explanation>'' c1
           \<and> ci_match ''<top-3>'' t \<and> ci_match ''</top-3>'' tc
           \<and> split_response txt = (py_strip b1, py_strip b2))"
    using split_response_match by blast
  have b: "re_search EXPL_RE txt = None \<longrightarrow>
        split_response txt = ([], txt)
        \<and> (int_safe txt \<longrightarrow>
             (\<exists>sel. parse_selection txt pids = Inr sel
                \<and> parse_response_swe txt pids = Inr ([], txt, sel)
                \<and> (txt \<noteq> [] \<longrightarrow> parse_response_hr txt pids = Inr ([], txt, sel))))"
    using split_response_nomatch [of "txt"] fallback_response [of "txt" pids] by blast
  have c: "txt \<noteq> [] \<longrightarrow> parse_response_hr txt pids = parse_response_swe txt pids"
    using parse_response_hr_eq by blast
  have e: "length pids = 11 \<and> distinct pids \<longrightarrow>
        parse_response_swe ?rt pids
          = Inr (''Good fit.'', ''2, 5, 5, 9'', [pids ! 1, pids ! 4, pids ! 8])
        \<and> parse_response_hr ?rt pids
          = Inr (''Good fit.'', ''2, 5, 5, 9'', [pids ! 1, pids ! 4, pids ! 8])"
  proof (intro impI, elim conjE)
    assume h: "length pids = 11" "distinct pids"
    have s: "parse_response_swe ?rt pids
          = Inr (''Good fit.'', ''2, 5, 5, 9'', [pids ! 1, pids ! 4, pids ! 8])"
      unfolding parse_response_swe_def roundtrip_split
      by (simp add: roundtrip_selection_general [OF h])
    have "?rt \<noteq> []" by simp
    from parse_response_hr_eq [OF this] s
    show "parse_response_swe ?rt pids
          = Inr (''Good fit.'', ''2, 5, 5, 9'', [pids ! 1, pids ! 4, pids ! 8])
        \<and> parse_response_hr ?rt pids
          = Inr (''Good fit.'', ''2, 5, 5, 9'', [pids ! 1, pids ! 4, pids ! 8])"
      by simp
  qed
  from a b c roundtrip_split e show ?thesis by (intro conjI)
qed

theorem C8_structural_split_witness:
  "parse_response_hr ''<explanation>Good fit.</explanation><top-3>2, 5, 5, 9</top-3>''
      [''a'', ''b'', ''c'', ''d'', ''e'', ''f'', ''g'', ''h'', ''i'', ''j'', ''k'']
     = Inr (''Good fit.'', ''2, 5, 5, 9'', [''b'', ''e'', ''i''])
   \<and> split_response ''pick 3'' = ([], ''pick 3'')
   \<and> (\<exists>sel. parse_response_swe ''pick 3''
               [''a'', ''b'', ''c'', ''d'', ''e'', ''f'', ''g'', ''h'', ''i'', ''j'', ''k'']
             = Inr ([], ''pick 3'', sel))
   \<and> parse_response_hr ''pick 3''
      [''a'', ''b'', ''c'', ''d'', ''e'', ''f'', ''g'', ''h'', ''i'', ''j'', ''k'']
     = parse_response_swe ''pick 3''
      [''a'', ''b'', ''c'', ''d'', ''e'', ''f'', ''g'', ''h'', ''i'', ''j'', ''k'']"
proof -
  have n: "re_search EXPL_RE ''pick 3'' = None"
    by (simp add: EXPL_RE_def ci_eq_def)
  have s: "int_safe ''pick 3''"
    by (simp add: int_safe_def findall_digits_def py_isdigit_def INT_MAX_STR_DIGITS_def)
  show ?thesis
    using C8_structural_split
        [of "''pick 3''" "[''a'', ''b'', ''c'', ''d'', ''e'', ''f'', ''g'', ''h'', ''i'', ''j'', ''k'']"]
      n s
    by auto
qed

text \<open>
  Claim C8 as stated fails on its own example: the ninth of the candidates \<open>a\<close> to \<open>k\<close>
  is \<open>i\<close>, so the selection is \<open>[b, e, i]\<close> and not \<open>[b, e, j]\<close>. And the regions
  returned are the tag contents without the whitespace at their ends.
\<close>

theorem C8_counterexample:
  "parse_response_swe ''<explanation>Good fit.</explanation><top-3>2, 5, 5, 9</top-3>''
      [''a'', ''b'', ''c'', ''d'', ''e'', ''f'', ''g'', ''h'', ''i'', ''j'', ''k'']
     = Inr (''Good fit.'', ''2, 5, 5, 9'', [''b'', ''e'', ''i''])
   \<and> parse_response_hr ''<explanation>Good fit.</explanation><top-3>2, 5, 5, 9</top-3>''
      [''a'', ''b'', ''c'', ''d'', ''e'', ''f'', ''g'', ''h'', ''i'', ''j'', ''k'']
     \<noteq> Inr (''Good fit.'', ''2, 5, 5, 9'', [''b'', ''e'', ''j''])
   \<and> re_search EXPL_RE ''<explanation> ok </explanation><top-3> 2 </top-3>''
     = Some [''<explanation>'', '' ok '', ''</explanation>'', [], ''<top-3>'', '' 2 '',
             ''</top-3>'']
   \<and> split_response ''<explanation> ok </explanation><top-3> 2 </top-3>'' = (''ok'', ''2'')"
proof -
  let ?rt = "''<explanation>Good fit.</explanation><top-3>2, 5, 5, 9</top-3>''"
  let ?ps = "[''a'', ''b'', ''c'', ''d'', ''e'', ''f'', ''g'', ''h'', ''i'', ''j'', ''k'']"
  have s: "parse_response_swe ?rt ?ps = Inr (''Good fit.'', ''2, 5, 5, 9'', [''b'', ''e'', ''i''])"
    unfolding parse_response_swe_def roundtrip_split
    by (simp add: roundtrip_selection)
  have "?rt \<noteq> []" by simp
  from parse_response_hr_eq [OF this, of ?ps] s
  have h: "parse_response_hr ?rt ?ps \<noteq> Inr (''Good fit.'', ''2, 5, 5, 9'', [''b'', ''e'', ''j''])"
    by simp
  have m: "re_search EXPL_RE ''<explanation> ok </explanation><top-3> 2 </top-3>''
     = Some [''<explanation>'', '' ok '', ''</explanation>'', [], ''<top-3>'', '' 2 '',
             ''</top-3>'']"
    by (simp add: EXPL_RE_def ci_eq_def)
  have p: "split_response ''<explanation> ok </explanation><top-3> 2 </top-3>'' = (''ok'', ''2'')"
    unfolding split_response_def m
    by (simp add: group_EXPL_RE py_strip_def py_isspace_def)
  from s h m p show ?thesis by (intro conjI)
qed

subsection \<open>The digit limit through the response parser\<close>

lemma digit_runs_block:
  "n \<in> set (digit_runs cur s) \<Longrightarrow> \<forall>c\<in>set cur. py_isdigit c \<Longrightarrow>
   (\<exists>a b. cur @ s = a @ n @ b) \<and> (\<forall>c\<in>set n. py_isdigit c)"
proof (induction s arbitrary: cur)
  case Nil
  then have "n = cur" by (simp split: if_splits)
  with Nil.prems(2) show ?case by (metis append_Nil append_Nil2)
next
  case (Cons c cs)
  show ?case
  proof (cases "py_isdigit c")
    case True
    with Cons.prems have "n \<in> set (digit_runs (cur @ [c]) cs)" "\<forall>x\<in>set (cur @ [c]). py_isdigit x"
      by simp_all
    from Cons.IH [OF this] show ?thesis by simp
  next
    case False
    with Cons.prems(1) consider "n = cur" | "n \<in> set (digit_runs [] cs)"
      by (auto split: if_splits)
    then show ?thesis
    proof cases
      case 1
      with Cons.prems(2) show ?thesis by (metis append_Nil)
    next
      case 2
      from Cons.IH [OF 2] obtain a b where "cs = a @ n @ b" and d: "\<forall>c\<in>set n. py_isdigit c"
        by auto
      then have "cur @ c # cs = (cur @ c # a) @ n @ b" by simp
      with d show ?thesis by blast
    qed
  qed
qed

lemma digit_runs_pending:
  "cur \<noteq> [] \<Longrightarrow> \<exists>run\<in>set (digit_runs cur b). length cur \<le> length run"
proof (induction b arbitrary: cur)
  case Nil
  then show ?case by simp
next
  case (Cons c cs)
  show ?case
  proof (cases "py_isdigit c")
    case True
    from Cons.IH [of "cur @ [c]"] obtain run where
      r: "run \<in> set (digit_runs (cur @ [c]) cs)" "length (cur @ [c]) \<le> length run" by auto
    from r(2) have "length cur \<le> length run" by simp
    with r(1) True show ?thesis by auto
  next
    case False
    with Cons.prems show ?thesis by simp
  qed
qed

lemma digit_runs_extend:
  "\<forall>c\<in>set n. py_isdigit c \<Longrightarrow> cur @ n \<noteq> [] \<Longrightarrow>
   \<exists>run\<in>set (digit_runs cur (n @ b)). length cur + length n \<le> length run"
proof (induction n arbitrary: cur)
  case Nil
  then show ?case using digit_runs_pending [of cur b] by simp
next
  case (Cons c cs)
  from Cons.prems have "\<forall>x\<in>set cs. py_isdigit x" "(cur @ [c]) @ cs \<noteq> []" by simp_all
  from Cons.IH [OF this] Cons.prems(1) show ?case by simp
qed

lemma digit_runs_cover:
  "\<forall>c\<in>set n. py_isdigit c \<Longrightarrow> n \<noteq> [] \<Longrightarrow>
   \<exists>run\<in>set (digit_runs cur (a @ n @ b)). length n \<le> length run"
proof (induction a arbitrary: cur)
  case Nil
  from digit_runs_extend [OF Nil(1), of cur b] Nil(2) obtain run where
    r: "run \<in> set (digit_runs cur (n @ b))" "length cur + length n \<le> length run" by auto
  from r(2) have "length n \<le> length run" by simp
  with r(1) show ?case by auto
next
  case (Cons c cs)
  show ?case
  proof (cases "py_isdigit c")
    case True
    with Cons.IH [OF Cons.prems, of "cur @ [c]"] show ?thesis by simp
  next
    case False
    with Cons.IH [OF Cons.prems, of "[]"] show ?thesis by auto
  qed
qed

lemma int_safe_sub:
  assumes "int_safe (a @ t @ b)"
  shows "int_safe t"
  unfolding int_safe_def list_all_iff
proof
  fix n assume n: "n \<in> set (findall_digits t)"
  then have "n \<in> set (digit_runs [] t)" by (simp add: findall_digits_def)
  from digit_runs_block [OF this] obtain p q where t: "t = p @ n @ q"
    and d: "\<forall>c\<in>set n. py_isdigit c" by auto
  show "length n \<le> INT_MAX_STR_DIGITS"
  proof (cases "n = []")
    case True
    then show ?thesis by simp
  next
    case False
    have "a @ t @ b = (a @ p) @ n @ (q @ b)" by (simp add: t)
    with digit_runs_cover [OF d False, of "[]" "a @ p" "q @ b"]
    obtain run where "run \<in> set (findall_digits (a @ t @ b))" "length n \<le> length run"
      by (auto simp: findall_digits_def)
    with assms show ?thesis by (fastforce simp: int_safe_def list_all_iff)
  qed
qed

lemma py_strip_sub: "\<exists>a b. s = a @ py_strip s @ b"
proof -
  let ?d = "dropWhile py_isspace s"
  have "?d = rev (dropWhile py_isspace (rev ?d)) @ rev (takeWhile py_isspace (rev ?d))"
    by (metis rev_append rev_rev_ident takeWhile_dropWhile_id)
  then have "?d = py_strip s @ rev (takeWhile py_isspace (rev ?d))"
    by (simp only: py_strip_def)
  moreover have "s = takeWhile py_isspace s @ ?d" by simp
  ultimately have "s = takeWhile py_isspace s @ py_strip s @ rev (takeWhile py_isspace (rev ?d))"
    by simp
  then show ?thesis by blast
qed

lemma int_safe_strip: "int_safe s \<Longrightarrow> int_safe (py_strip s)"
  using py_strip_sub [of s] int_safe_sub by metis

lemma int_safe_Nil: "int_safe []"
  by (simp add: int_safe_def findall_digits_def)

lemma split_response_safe:
  assumes "int_safe resp"
  shows "int_safe (snd (split_response resp))"
proof (cases "re_search EXPL_RE resp")
  case None
  with assms show ?thesis by (simp add: split_response_def)
next
  case (Some ws)
  from split_response_match [OF Some] obtain pre o1 b1 c1 m t b2 tc rest where
    e: "resp = pre @ o1 @ b1 @ c1 @ m @ t @ b2 @ tc @ rest"
    and s: "split_response resp = (py_strip b1, py_strip b2)" by blast
  have "resp = (pre @ o1 @ b1 @ c1 @ m @ t) @ b2 @ (tc @ rest)" by (simp add: e)
  with assms have "int_safe b2" using int_safe_sub by metis
  then show ?thesis by (simp add: s int_safe_strip)
qed

lemma parse_response_swe_ok:
  assumes "int_safe resp"
  shows "\<exists>rat selb sel. parse_response_swe resp pids = Inr (rat, selb, sel)"
proof -
  obtain rat selb where s: "split_response resp = (rat, selb)" by (cases "split_response resp")
  with split_response_safe [OF assms] have "int_safe selb" by simp
  from parse_selection_spec [OF this, of pids] s show ?thesis
    by (simp add: parse_response_swe_def)
qed

lemma parse_response_empty:
  "parse_response r [] pids = Inr ([], [], [])"
proof -
  have "re_search EXPL_RE [] = None" by (simp add: EXPL_RE_def)
  then have "split_response [] = ([], [])" by (simp add: split_response_def)
  moreover have "parse_selection [] pids = Inr []"
    by (simp add: parse_selection_def findall_digits_def)
  ultimately show ?thesis
    by (cases r) (simp_all add: parse_response_def parse_response_hr_def parse_response_swe_def)
qed

lemma parse_response_ok:
  assumes "int_safe resp"
  shows "\<exists>rat selb sel. parse_response r resp pids = Inr (rat, selb, sel)"
proof (cases "resp = []")
  case True
  then show ?thesis by (simp add: parse_response_empty)
next
  case False
  from parse_response_swe_ok [OF assms, of pids] parse_response_hr_eq [OF False, of pids]
  show ?thesis by (cases r) (simp_all add: parse_response_def)
qed

lemma attempt_safe:
  assumes "case answer of Raises e \<Rightarrow> True | Returns raw \<Rightarrow> int_safe raw"
  shows "attempt_hr answer = Inr resp \<Longrightarrow> int_safe resp"
    and "attempt_swe answer = Inr resp \<Longrightarrow> int_safe resp"
  using assms
  by (auto simp: attempt_hr_def attempt_swe_def Let_def int_safe_strip
      split: attempt_result.splits if_splits)

subsection \<open>One scenario of the loop\<close>

lemma collect_ok:
  assumes "\<forall>x\<in>set xs. \<exists>y. f x = Inr y"
  shows "\<exists>ys. collect f xs = Inr ys \<and> length ys = length xs"
  using assms
proof (induction xs)
  case Nil
  then show ?case by simp
next
  case (Cons x xs)
  then obtain y ys where "f x = Inr y" "collect f xs = Inr ys" "length ys = length xs"
    by auto
  then show ?case by simp
qed

lemma wf_inputs_persona:
  assumes "wf_inputs r cfg" "var \<in> set (variants cfg)" "p \<in> set (persona_ids var)"
  obtains d v where "id2p cfg p = Some d" "d (resume_field r) = Some v"
proof -
  from assms have "case id2p cfg p of None \<Rightarrow> False | Some d \<Rightarrow> d (resume_field r) \<noteq> None"
    unfolding wf_inputs_def by (auto simp: list_all_iff)
  then show thesis using that by (auto split: option.splits)
qed

lemma candidates_block_ok:
  assumes "wf_inputs r cfg" "var \<in> set (variants cfg)"
  shows "\<exists>b. candidates_block r cfg var = Inr b"
proof -
  have "\<forall>p\<in>set (persona_ids var). \<exists>y. persona_field (id2p cfg) (resume_field r) p = Inr y"
  proof
    fix p assume "p \<in> set (persona_ids var)"
    with assms obtain d v where "id2p cfg p = Some d" "d (resume_field r) = Some v"
      by (rule wf_inputs_persona)
    then show "\<exists>y. persona_field (id2p cfg) (resume_field r) p = Inr y"
      by (simp add: persona_field_def)
  qed
  from collect_ok [OF this] show ?thesis
    by (auto simp: candidates_block_def)
qed

lemma candidates_block_block_of:
  assumes "wf_inputs r cfg" "var \<in> set (variants cfg)"
  shows "candidates_block r cfg var = Inr (block_of r cfg var)"
  using candidates_block_ok [OF assms] by (auto simp: block_of_def)

lemma persona_meta_ok:
  assumes "wf_inputs r cfg" "var \<in> set (variants cfg)"
  shows "\<exists>meta. persona_meta_of (id2p cfg) (persona_ids var) = Inr meta"
proof -
  have "\<forall>p\<in>set (persona_ids var).
          \<exists>y. (case id2p cfg p of None \<Rightarrow> Inl (KeyError p)
                | Some q \<Rightarrow> Inr (map (\<lambda>k. (k, q k)) META_KEYS)) = Inr y"
  proof
    fix p assume "p \<in> set (persona_ids var)"
    with assms obtain d v where "id2p cfg p = Some d" "d (resume_field r) = Some v"
      by (rule wf_inputs_persona)
    then show "\<exists>y. (case id2p cfg p of None \<Rightarrow> Inl (KeyError p)
                | Some q \<Rightarrow> Inr (map (\<lambda>k. (k, q k)) META_KEYS)) = Inr y"
      by simp
  qed
  from collect_ok [OF this] show ?thesis
    unfolding persona_meta_of_def by blast
qed

lemma pick_api_key_ok:
  assumes "keys \<noteq> []"
  shows "\<exists>k. pick_api_key keys i = Inr k \<and> k \<in> set keys"
proof -
  have n: "0 < length keys" using assms by simp
  from key_slot_range [OF n, of 450 i]
  have r: "0 \<le> key_slot 450 (length keys) i" "key_slot 450 (length keys) i < int (length keys)"
    by auto
  from py_index_in_range [OF r]
  have "pick_api_key keys i = Inr (keys ! nat (key_slot 450 (length keys) i))"
    using assms by (simp add: pick_api_key_def pick_api_key_sized_def PROMPTS_PER_KEY_def)
  moreover have "nat (key_slot 450 (length keys) i) < length keys" using r by simp
  ultimately show ?thesis by (metis nth_mem)
qed

lemma retry_loop_events:
  "e \<in> set (snd (retry_loop body answer k p as)) \<Longrightarrow> e = Request k p \<or> (\<exists>t. e = Sleep t)"
  by (induction as) (auto split: sum.splits prod.splits if_splits)

lemma retry_loop_head:
  "as \<noteq> [] \<Longrightarrow> \<exists>rest. snd (retry_loop body answer k p as) = Request k p # rest"
  by (cases as) (auto split: sum.splits prod.splits)

lemma invoke_events:
  "e \<in> set (snd (invoke r answer k p)) \<Longrightarrow> e = Request k p \<or> (\<exists>t. e = Sleep t)"
  by (cases r) (auto simp: invoke_def call_model_def call_gemini_def dest: retry_loop_events)

lemma invoke_head:
  "\<exists>rest. snd (invoke r answer k p) = Request k p # rest"
proof -
  have h: "\<exists>rest. snd (retry_loop body answer k p [1..<MAX_RETRIES + 1]) = Request k p # rest"
    for body
    unfolding attempts_list by (rule retry_loop_head) simp
  show ?thesis
  proof (cases r)
    case HR
    then show ?thesis using h [of attempt_hr] by (simp only: invoke_def call_model_def role.case)
  next
    case SWE
    then show ?thesis using h [of attempt_swe] by (simp only: invoke_def call_gemini_def role.case)
  qed
qed

lemma invoke_result:
  "fst (invoke r answer k p) = []
   \<or> (\<exists>a\<in>set [1..<MAX_RETRIES + 1].
         (case r of HR \<Rightarrow> attempt_hr | SWE \<Rightarrow> attempt_swe) (answer a)
           = Inr (fst (invoke r answer k p)))"
proof (cases r)
  case HR
  then show ?thesis
    using retry_result [of attempt_hr answer k p "[1..<MAX_RETRIES + 1]"]
    by (simp only: invoke_def call_model_def role.case)
next
  case SWE
  then show ?thesis
    using retry_result [of attempt_swe answer k p "[1..<MAX_RETRIES + 1]"]
    by (simp only: invoke_def call_gemini_def role.case)
qed

lemma invoke_safe:
  assumes "\<forall>a\<in>set [1..<MAX_RETRIES + 1].
             case answer a of Raises e \<Rightarrow> True | Returns raw \<Rightarrow> int_safe raw"
  shows "int_safe (fst (invoke r answer k p))"
proof -
  from invoke_result [of r answer k p] consider "fst (invoke r answer k p) = []"
    | a where "a \<in> set [1..<MAX_RETRIES + 1]"
        "(case r of HR \<Rightarrow> attempt_hr | SWE \<Rightarrow> attempt_swe) (answer a)
           = Inr (fst (invoke r answer k p))"
    by blast
  then show ?thesis
  proof cases
    case 1
    then show ?thesis by (simp add: int_safe_Nil)
  next
    case 2
    from assms 2(1) have s: "case answer a of Raises e \<Rightarrow> True | Returns raw \<Rightarrow> int_safe raw"
      by blast
    from 2(2) attempt_safe [OF s] show ?thesis by (cases r) simp_all
  qed
qed

lemma answers_safe_at:
  assumes "answers_safe cfg w" "1 \<le> idx" "idx \<le> total_scenarios cfg"
  shows "\<forall>a\<in>set [1..<MAX_RETRIES + 1].
           case endpoint w idx a of Raises e \<Rightarrow> True | Returns raw \<Rightarrow> int_safe raw"
proof -
  from assms(2,3) have "idx \<in> set [1..<total_scenarios cfg + 1]" by auto
  with assms(1) show ?thesis
    unfolding answers_safe_def list_all_iff by blast
qed

lemma written_append: "written (xs @ ys) = written xs @ written ys"
  by (simp add: written_def)


lemma invoke_silent:
  "written (snd (invoke r answer k p)) = [] \<and> saved (snd (invoke r answer k p)) = []"
proof -
  have "\<forall>e\<in>set (snd (invoke r answer k p)). e = Request k p \<or> (\<exists>t. e = Sleep t)"
    using invoke_events by blast
  then have "\<forall>e\<in>set (snd (invoke r answer k p)).
               (case e of Write i rec \<Rightarrow> [i] | _ \<Rightarrow> []) = []
             \<and> (case e of SaveCheckpoint n \<Rightarrow> [n] | _ \<Rightarrow> []) = []"
    by auto
  then show ?thesis by (simp add: written_def saved_def)
qed

lemma invoke_disk:
  "foldl (apply_event ts) d (snd (invoke r answer k p)) = d"
proof -
  have "\<forall>e\<in>set evs. e = Request k p \<or> (\<exists>t. e = Sleep t) \<Longrightarrow> foldl (apply_event ts) d evs = d"
    for evs
    by (induction evs) auto
  then show ?thesis using invoke_events by blast
qed

text \<open>What one scenario does, whatever the inputs.\<close>

lemma process_item_cases:
  assumes "api_keys cfg \<noteq> []"
  shows "\<exists>key. pick_api_key (api_keys cfg) (int idx) = Inr key
     \<and> ((\<exists>e. process_item r cfg w var block style_key tpl idx
               = (Some e, snd (invoke r (endpoint w idx) key (render_prompt r tpl block))))
        \<or> (\<exists>rec. process_item r cfg w var block style_key tpl idx
               = (None, snd (invoke r (endpoint w idx) key (render_prompt r tpl block))
                        @ [Write idx rec, SaveCheckpoint idx, Sleep DELAY_SECONDS])
             \<and> prompt_text rec = render_prompt r tpl block
             \<and> response_text rec
                 = fst (invoke r (endpoint w idx) key (render_prompt r tpl block))
             \<and> parse_response r (response_text rec) (persona_ids var)
                 = Inr (rationale_text rec, selection_line rec, selected_persona_ids rec)))"
proof -
  from pick_api_key_ok [OF assms] obtain key where
    k: "pick_api_key (api_keys cfg) (int idx) = Inr key" by blast
  obtain resp evs where
    i: "invoke r (endpoint w idx) key (render_prompt r tpl block) = (resp, evs)"
    by (cases "invoke r (endpoint w idx) key (render_prompt r tpl block)")
  show ?thesis
    using k i
    by (auto simp: process_item_def split: sum.splits prod.splits)
qed

lemma process_item_ok:
  assumes "wf_inputs r cfg" "var \<in> set (variants cfg)"
    and "pick_api_key (api_keys cfg) (int idx) = Inr key"
    and "int_safe (fst (invoke r (endpoint w idx) key (render_prompt r tpl block)))"
  shows "\<exists>rec.
           process_item r cfg w var block style_key tpl idx
             = (None, snd (invoke r (endpoint w idx) key (render_prompt r tpl block))
                      @ [Write idx rec, SaveCheckpoint idx, Sleep DELAY_SECONDS])
         \<and> prompt_text rec = render_prompt r tpl block
         \<and> response_text rec = fst (invoke r (endpoint w idx) key (render_prompt r tpl block))
         \<and> parse_response r (response_text rec) (persona_ids var)
             = Inr (rationale_text rec, selection_line rec, selected_persona_ids rec)"
proof -
  obtain resp evs where
    i: "invoke r (endpoint w idx) key (render_prompt r tpl block) = (resp, evs)"
    by (cases "invoke r (endpoint w idx) key (render_prompt r tpl block)")
  with assms(4) have "int_safe resp" by simp
  from parse_response_ok [OF this] obtain rat selb sel where
    p: "parse_response r resp (persona_ids var) = Inr (rat, selb, sel)"
    by blast
  from persona_meta_ok [OF assms(1,2)] obtain meta where
    m: "persona_meta_of (id2p cfg) (persona_ids var) = Inr meta" by blast
  show ?thesis
    using assms(3) i p m by (simp add: process_item_def)
qed

lemma process_item_written:
  "set (written (snd (process_item r cfg w var block style_key tpl idx))) \<subseteq> {idx}"
proof (cases "pick_api_key (api_keys cfg) (int idx)")
  case (Inl e)
  then show ?thesis by (simp add: process_item_def written_def)
next
  case (Inr key)
  obtain resp evs where
    i: "invoke r (endpoint w idx) key (render_prompt r tpl block) = (resp, evs)"
    by (cases "invoke r (endpoint w idx) key (render_prompt r tpl block)")
  from invoke_silent [of r "endpoint w idx" key "render_prompt r tpl block"] i
  have s: "written evs = []" by simp
  show ?thesis
    using Inr i s
    by (auto simp: process_item_def written_append written_def
        split: sum.splits prod.splits)
qed

subsection \<open>Prompt construction\<close>

lemma replace_scan_skip:
  "replace_scan old new (length xs) (xs @ b) = replace_scan old new 0 b"
  by (induction xs) simp_all

lemma replace_scan_absent:
  "old \<noteq> [] \<Longrightarrow> hd old \<notin> set s \<Longrightarrow> replace_scan old new 0 s = s"
proof (induction s)
  case Nil
  then show ?case by simp
next
  case (Cons c cs)
  from Cons.prems have "take (length old) (c # cs) \<noteq> old"
    by (cases old) auto
  with Cons show ?case by simp
qed

lemma replace_scan_first:
  assumes "old \<noteq> []" "hd old \<notin> set a"
  shows "replace_scan old new 0 (a @ old @ b) = a @ new @ replace_scan old new 0 b"
  using assms(2)
proof (induction a)
  case Nil
  obtain c cs where o: "old = c # cs" using assms(1) by (cases old) auto
  have "replace_scan old new 0 (old @ b) = new @ replace_scan old new (length cs) (cs @ b)"
    by (simp add: o)
  then show ?case by (simp add: replace_scan_skip)
next
  case (Cons x xs)
  from Cons.prems assms(1) have "take (length old) (x # xs @ old @ b) \<noteq> old"
    by (cases old) auto
  with Cons show ?case by simp
qed

lemma py_replace_placeholder:
  "CHR ''{'' \<notin> set a \<Longrightarrow>
   py_replace ''{{candidates_block}}'' block (a @ ''{{candidates_block}}'' @ b)
     = a @ block @ py_replace ''{{candidates_block}}'' block b"
  "CHR ''{'' \<notin> set tpl \<Longrightarrow> py_replace ''{{candidates_block}}'' block tpl = tpl"
proof -
  have n: "''{{candidates_block}}'' \<noteq> []" "hd ''{{candidates_block}}'' = CHR ''{''" by simp_all
  show "CHR ''{'' \<notin> set a \<Longrightarrow>
   py_replace ''{{candidates_block}}'' block (a @ ''{{candidates_block}}'' @ b)
     = a @ block @ py_replace ''{{candidates_block}}'' block b"
    unfolding py_replace_def
    using replace_scan_first [OF n(1), of a block b] unfolding n(2) by blast
  show "CHR ''{'' \<notin> set tpl \<Longrightarrow> py_replace ''{{candidates_block}}'' block tpl = tpl"
    unfolding py_replace_def
    using replace_scan_absent [OF n(1), of tpl block] unfolding n(2) by blast
qed

text \<open>
  Claim C10. The prompt that a scenario sends, at every attempt, and the \<open>prompt_text\<close>
  of the record it logs are the same text for each entry point: in run\_gemini\_hr.py the
  template with the placeholder replaced by the candidates block, followed by two line
  feeds and \<open>Please add a brief rationale.\<close>; in run\_gemini\_swe.py the template with the
  placeholder replaced and nothing after it. The two prompts of one template and one block
  always differ. The replacement puts the block where the first placeholder stands and
  goes on behind it; a template without the placeholder is left as it is. The record is
  logged whenever the scenario raises nothing.
\<close>

theorem C10_prompt_rendering:
  assumes "api_keys cfg \<noteq> []"
  shows "\<exists>key calls tail.
           snd (process_item r cfg w var block style_key tpl idx)
             = Request key (render_prompt r tpl block) # calls @ tail
         \<and> (\<forall>e\<in>set calls. e = Request key (render_prompt r tpl block) \<or> (\<exists>t. e = Sleep t))
         \<and> (tail = []
              \<or> (\<exists>rec. tail = [Write idx rec, SaveCheckpoint idx, Sleep DELAY_SECONDS]
                     \<and> prompt_text rec = render_prompt r tpl block))
         \<and> (wf_inputs r cfg \<and> var \<in> set (variants cfg)
              \<and> int_safe (fst (invoke r (endpoint w idx) key (render_prompt r tpl block)))
              \<longrightarrow> tail \<noteq> [])
         \<and> render_prompt HR tpl block
             = py_replace ''{{candidates_block}}'' block tpl
               @ [CHR 0x0A, CHR 0x0A] @ ''Please add a brief rationale.''
         \<and> render_prompt SWE tpl block = py_replace ''{{candidates_block}}'' block tpl
         \<and> render_prompt HR tpl block \<noteq> render_prompt SWE tpl block
         \<and> (\<forall>a b. CHR ''{'' \<notin> set a \<longrightarrow>
               py_replace ''{{candidates_block}}'' block (a @ ''{{candidates_block}}'' @ b)
                 = a @ block @ py_replace ''{{candidates_block}}'' block b)
         \<and> (CHR ''{'' \<notin> set tpl \<longrightarrow> py_replace ''{{candidates_block}}'' block tpl = tpl)"
proof -
  let ?p = "render_prompt r tpl block"
  let ?item = "process_item r cfg w var block style_key tpl idx"
  from process_item_cases [OF assms, of idx r w var block style_key tpl] obtain key where
    k: "pick_api_key (api_keys cfg) (int idx) = Inr key"
    and c: "(\<exists>e. ?item = (Some e, snd (invoke r (endpoint w idx) key ?p)))
        \<or> (\<exists>rec. ?item = (None, snd (invoke r (endpoint w idx) key ?p)
                        @ [Write idx rec, SaveCheckpoint idx, Sleep DELAY_SECONDS])
             \<and> prompt_text rec = ?p)"
    by blast
  obtain calls where h: "snd (invoke r (endpoint w idx) key ?p) = Request key ?p # calls"
    using invoke_head by blast
  have d: "\<forall>e\<in>set calls. e = Request key ?p \<or> (\<exists>t. e = Sleep t)"
  proof
    fix e assume "e \<in> set calls"
    then have "e \<in> set (snd (invoke r (endpoint w idx) key ?p))" using h by simp
    then show "e = Request key ?p \<or> (\<exists>t. e = Sleep t)" by (rule invoke_events)
  qed
  have ok: "\<exists>rec. ?item = (None, snd (invoke r (endpoint w idx) key ?p)
                        @ [Write idx rec, SaveCheckpoint idx, Sleep DELAY_SECONDS])
             \<and> prompt_text rec = ?p"
    if "wf_inputs r cfg" "var \<in> set (variants cfg)"
      "int_safe (fst (invoke r (endpoint w idx) key ?p))"
    using process_item_ok [OF that(1,2) k that(3), of style_key] by blast
  obtain tail where t: "snd ?item = Request key ?p # calls @ tail"
    and t1: "tail = [] \<or> (\<exists>rec. tail = [Write idx rec, SaveCheckpoint idx, Sleep DELAY_SECONDS]
                     \<and> prompt_text rec = ?p)"
    and t2: "wf_inputs r cfg \<and> var \<in> set (variants cfg)
              \<and> int_safe (fst (invoke r (endpoint w idx) key ?p)) \<longrightarrow> tail \<noteq> []"
  proof (cases "\<exists>e. ?item = (Some e, snd (invoke r (endpoint w idx) key ?p))")
    case True
    then have "snd ?item = Request key ?p # calls @ []" using h by auto
    moreover have "\<not> (wf_inputs r cfg \<and> var \<in> set (variants cfg)
              \<and> int_safe (fst (invoke r (endpoint w idx) key ?p)))"
      using True ok by auto
    ultimately show ?thesis using that [of "[]"] by blast
  next
    case False
    with c obtain rec where
      "?item = (None, snd (invoke r (endpoint w idx) key ?p)
                        @ [Write idx rec, SaveCheckpoint idx, Sleep DELAY_SECONDS])"
      "prompt_text rec = ?p" by blast
    then have "snd ?item
        = Request key ?p # calls @ [Write idx rec, SaveCheckpoint idx, Sleep DELAY_SECONDS]"
      "prompt_text rec = ?p"
      using h by simp_all
    then show ?thesis
      using that [of "[Write idx rec, SaveCheckpoint idx, Sleep DELAY_SECONDS]"] by blast
  qed
  have e: "render_prompt HR tpl block
             = py_replace ''{{candidates_block}}'' block tpl
               @ [CHR 0x0A, CHR 0x0A] @ ''Please add a brief rationale.''"
    by (simp add: render_prompt_def PLACEHOLDER_def RATIONALE_SUFFIX_def)
  have f: "render_prompt SWE tpl block = py_replace ''{{candidates_block}}'' block tpl"
    by (simp add: render_prompt_def PLACEHOLDER_def)
  have g: "render_prompt HR tpl block \<noteq> render_prompt SWE tpl block"
    unfolding e f by simp
  have i: "\<forall>a b. CHR ''{'' \<notin> set a \<longrightarrow>
               py_replace ''{{candidates_block}}'' block (a @ ''{{candidates_block}}'' @ b)
                 = a @ block @ py_replace ''{{candidates_block}}'' block b"
    using py_replace_placeholder(1) by blast
  have j: "CHR ''{'' \<notin> set tpl \<longrightarrow> py_replace ''{{candidates_block}}'' block tpl = tpl"
    using py_replace_placeholder(2) by blast
  from t d t1 t2 e f g i j show ?thesis by blast
qed

theorem C10_prompt_rendering_witness:
  "\<exists>key calls rec.
     snd (process_item HR
            \<lparr>variants = [\<lparr>variant_id = ''v1'', persona_ids = [''p1'']\<rparr>],
             style_items = [(''plain'', ''Rank {{candidates_block}} now'')],
             id2p = [''p1'' \<mapsto> [''resume_hr'' \<mapsto> ''cv'']],
             api_keys = [''k1'', ''k2'']\<rparr>
            \<lparr>endpoint = \<lambda>i a. Raises TransportError, clock = \<lambda>i. ''t''\<rparr>
            \<lparr>variant_id = ''v1'', persona_ids = [''p1'']\<rparr>
            ''B'' ''plain'' ''Rank {{candidates_block}} now'' 1)
       = Request key (''Rank B now'' @ [CHR 0x0A, CHR 0x0A] @ ''Please add a brief rationale.'')
         # calls @ [Write 1 rec, SaveCheckpoint 1, Sleep DELAY_SECONDS]
     \<and> prompt_text rec
         = ''Rank B now'' @ [CHR 0x0A, CHR 0x0A] @ ''Please add a brief rationale.''"
proof -
  let ?var = "\<lparr>variant_id = ''v1'', persona_ids = [''p1'']\<rparr>"
  let ?cfg = "\<lparr>variants = [?var],
             style_items = [(''plain'', ''Rank {{candidates_block}} now'')],
             id2p = [''p1'' \<mapsto> [''resume_hr'' \<mapsto> ''cv'']],
             api_keys = [''k1'', ''k2'']\<rparr>"
  let ?w = "\<lparr>endpoint = \<lambda>i a. Raises TransportError, clock = \<lambda>i. ''t''\<rparr>"
  let ?tpl = "''Rank {{candidates_block}} now''"
  have k: "api_keys ?cfg \<noteq> []" by simp
  have wf: "wf_inputs HR ?cfg" by (simp add: wf_inputs_def resume_field_def)
  have v: "?var \<in> set (variants ?cfg)" by simp
  have p: "render_prompt HR ?tpl ''B''
         = ''Rank B now'' @ [CHR 0x0A, CHR 0x0A] @ ''Please add a brief rationale.''"
    by (simp add: render_prompt_def py_replace_def PLACEHOLDER_def RATIONALE_SUFFIX_def)
  have s: "int_safe (fst (invoke HR (endpoint ?w 1) key (render_prompt HR ?tpl ''B'')))" for key
    by (rule invoke_safe) simp
  from C10_prompt_rendering [OF k, of HR ?w ?var "''B''" "''plain''" ?tpl 1] wf v s
  show ?thesis unfolding p by blast
qed

subsection \<open>The loops of a full run\<close>

lemma item_ok:
  assumes "wf_inputs r cfg" "answers_safe cfg w" "var \<in> set (variants cfg)"
    and "1 \<le> idx" "idx \<le> total_scenarios cfg"
  shows "\<exists>key rec.
           pick_api_key (api_keys cfg) (int idx) = Inr key
         \<and> process_item r cfg w var block style_key tpl idx
             = (None, snd (invoke r (endpoint w idx) key (render_prompt r tpl block))
                      @ [Write idx rec, SaveCheckpoint idx, Sleep DELAY_SECONDS])
         \<and> prompt_text rec = render_prompt r tpl block
         \<and> response_text rec = fst (invoke r (endpoint w idx) key (render_prompt r tpl block))
         \<and> parse_response r (response_text rec) (persona_ids var)
             = Inr (rationale_text rec, selection_line rec, selected_persona_ids rec)"
proof -
  from assms(1) have "api_keys cfg \<noteq> []" by (simp add: wf_inputs_def)
  from pick_api_key_ok [OF this] obtain key where
    k: "pick_api_key (api_keys cfg) (int idx) = Inr key" by blast
  have "int_safe (fst (invoke r (endpoint w idx) key (render_prompt r tpl block)))"
    by (rule invoke_safe) (rule answers_safe_at [OF assms(2,4,5)])
  from process_item_ok [OF assms(1,3) k this, of style_key] k show ?thesis by blast
qed

lemma foldl_max_less:
  "foldl max (d::nat) ys < n \<longleftrightarrow> d < n \<and> (\<forall>y\<in>set ys. y < n)"
  by (induction ys arbitrary: d) auto

lemma style_loop_flat:
  assumes "sorted_wrt (<) (map fst xs)"
    and "\<forall>x\<in>set xs. fst (process_item r cfg w var block (fst (snd x)) (snd (snd x))
                              ((vi - 1) * length (style_items cfg) + fst x)) = None"
  shows "style_loop r cfg w vi var block xs d
     = (None,
        foldl max d (map (\<lambda>x. (vi - 1) * length (style_items cfg) + fst x) xs),
        concat (map (\<lambda>(si, style_key, tpl).
                       snd (process_item r cfg w var block style_key tpl
                              ((vi - 1) * length (style_items cfg) + si)))
                  (filter (\<lambda>x. d < (vi - 1) * length (style_items cfg) + fst x) xs)))"
proof -
  define b where "b = (vi - 1) * length (style_items cfg)"
  have step: "style_loop r cfg w vi var block ((si, style_key, tpl) # ys) e =
       (if b + si \<le> e then style_loop r cfg w vi var block ys e
        else (case process_item r cfg w var block style_key tpl (b + si) of
                (Some err, evs) \<Rightarrow> (Some err, e, evs)
              | (None, evs) \<Rightarrow>
                  (case style_loop r cfg w vi var block ys (b + si) of
                     (res, d', evs') \<Rightarrow> (res, d', evs @ evs'))))"
    for si style_key tpl ys e
    unfolding b_def style_loop.simps Let_def ..
  have main: "sorted_wrt (<) (map fst ys) \<Longrightarrow>
     \<forall>x\<in>set ys. fst (process_item r cfg w var block (fst (snd x)) (snd (snd x))
                        (b + fst x)) = None \<Longrightarrow>
     style_loop r cfg w vi var block ys e
     = (None, foldl max e (map (\<lambda>x. b + fst x) ys),
        concat (map (\<lambda>(si, style_key, tpl).
                       snd (process_item r cfg w var block style_key tpl (b + si)))
                  (filter (\<lambda>x. e < b + fst x) ys)))" for ys e
  proof (induction ys arbitrary: e)
    case Nil
    then show ?case by simp
  next
    case (Cons x xs)
    obtain si style_key tpl where x: "x = (si, style_key, tpl)" by (cases x)
    from Cons.prems have s: "sorted_wrt (<) (map fst xs)" and l: "\<forall>y\<in>set xs. si < fst y"
      and ok: "\<forall>x\<in>set xs. fst (process_item r cfg w var block (fst (snd x)) (snd (snd x))
                        (b + fst x)) = None"
      and here: "fst (process_item r cfg w var block style_key tpl (b + si)) = None"
      by (auto simp: x)
    note ih = Cons.IH [OF s ok]
    show ?case
    proof (cases "b + si \<le> e")
      case True
      then have "max e (b + si) = e" by simp
      with True show ?thesis unfolding x step by (simp add: ih)
    next
      case False
      then have m: "max e (b + si) = b + si" by simp
      from here obtain evs where
        p: "process_item r cfg w var block style_key tpl (b + si) = (None, evs)"
        by (cases "process_item r cfg w var block style_key tpl (b + si)") auto
      have f: "filter (\<lambda>y. b + si < b + fst y) xs = xs" using l by (auto simp: filter_id_conv)
      have g: "filter (\<lambda>y. e < b + fst y) xs = xs" using l False by (auto simp: filter_id_conv)
      have h: "filter (\<lambda>y. si < fst y) xs = xs" using l by (auto simp: filter_id_conv)
      show ?thesis unfolding x step using False by (simp add: ih p m f g h)
    qed
  qed
  from main [OF assms(1) assms(2) [folded b_def], of d] show ?thesis unfolding b_def .
qed

lemma variant_feed_fst:
  "map fst (variant_feed cfg (vi, var))
     = map (\<lambda>x. (vi - 1) * length (style_items cfg) + fst x) (enumerate 1 (style_items cfg))"
  by (simp add: variant_feed_def split_def)

lemma variant_feed_bounds:
  assumes "sc \<in> set (variant_feed cfg (vi, var))"
  shows "(vi - 1) * length (style_items cfg) < fst sc
       \<and> fst sc \<le> (vi - 1) * length (style_items cfg) + length (style_items cfg)
       \<and> fst (snd sc) = var"
proof -
  from assms obtain x where x: "x \<in> set (enumerate 1 (style_items cfg))"
    and sc: "sc = ((vi - 1) * length (style_items cfg) + fst x, var, snd x)"
    by (auto simp: variant_feed_def split_def)
  obtain i y where xy: "x = (i, y)" by (cases x)
  have "1 \<le> fst x \<and> fst x < 1 + length (style_items cfg)"
    using x unfolding xy by (simp add: in_set_enumerate_eq)
  then show ?thesis by (simp add: sc)
qed

lemma row_index_range:
  assumes "1 \<le> vi" "vi \<le> length (variants cfg)"
    and "(vi - 1) * length (style_items cfg) < i"
    and "i \<le> (vi - 1) * length (style_items cfg) + length (style_items cfg)"
  shows "1 \<le> i \<and> i \<le> total_scenarios cfg"
proof -
  let ?S = "length (style_items cfg)"
  have "(vi - 1) * ?S + ?S = vi * ?S" using assms(1) by (cases vi) simp_all
  moreover have "vi * ?S \<le> length (variants cfg) * ?S" using assms(2) by (rule mult_le_mono1)
  ultimately show ?thesis using assms(3,4) unfolding total_scenarios_def by linarith
qed

lemma variant_feed_events:
  assumes "wf_inputs r cfg" and "answers_safe cfg w" and "var \<in> set (variants cfg)"
    and "1 \<le> vi" "vi \<le> length (variants cfg)"
  shows "style_loop r cfg w vi var (block_of r cfg var) (enumerate 1 (style_items cfg)) d
     = (None,
        foldl max d (map fst (variant_feed cfg (vi, var))),
        concat (map (scenario_events r cfg w)
                  (filter (\<lambda>sc. d < fst sc) (variant_feed cfg (vi, var)))))"
proof -
  have s: "sorted_wrt (<) (map fst (enumerate 1 (style_items cfg)))"
    by (simp only: map_fst_enumerate sorted_wrt_upt)
  have ok: "\<forall>x\<in>set (enumerate 1 (style_items cfg)).
             fst (process_item r cfg w var (block_of r cfg var) (fst (snd x)) (snd (snd x))
                    ((vi - 1) * length (style_items cfg) + fst x)) = None"
  proof
    fix x assume x: "x \<in> set (enumerate 1 (style_items cfg))"
    let ?i = "(vi - 1) * length (style_items cfg) + fst x"
    have "(?i, var, snd x) \<in> set (variant_feed cfg (vi, var))"
      using x by (force simp: variant_feed_def split_def)
    from variant_feed_bounds [OF this] row_index_range [OF assms(4,5), of ?i]
    have "1 \<le> ?i \<and> ?i \<le> total_scenarios cfg" by simp
    with item_ok [OF assms(1,2,3), of ?i "block_of r cfg var" "fst (snd x)" "snd (snd x)"]
    show "fst (process_item r cfg w var (block_of r cfg var) (fst (snd x)) (snd (snd x)) ?i)
            = None"
      by auto
  qed
  have e: "concat (map (scenario_events r cfg w)
                  (filter (\<lambda>sc. d < fst sc) (variant_feed cfg (vi, var))))
         = concat (map (\<lambda>(si, style_key, tpl).
                       snd (process_item r cfg w var (block_of r cfg var) style_key tpl
                              ((vi - 1) * length (style_items cfg) + si)))
                  (filter (\<lambda>x. d < (vi - 1) * length (style_items cfg) + fst x)
                     (enumerate 1 (style_items cfg))))"
    by (simp add: variant_feed_def filter_map comp_def split_def scenario_events_def)
  show ?thesis
    unfolding style_loop_flat [OF s ok] variant_feed_fst e ..
qed

lemma variant_loop_flat:
  assumes "wf_inputs r cfg" and "answers_safe cfg w"
    and "snd ` set vs \<subseteq> set (variants cfg)"
    and "sorted_wrt (<) (map fst vs)"
    and "\<forall>v\<in>set vs. 1 \<le> fst v \<and> fst v \<le> length (variants cfg)"
  shows "variant_loop r cfg w False vs d
     = (None,
        foldl max d (map fst (concat (map (variant_feed cfg) vs))),
        concat (map (scenario_events r cfg w)
                  (filter (\<lambda>sc. d < fst sc) (concat (map (variant_feed cfg) vs)))))"
  using assms(3,4,5)
proof (induction vs arbitrary: d)
  case Nil
  then show ?case by simp
next
  case (Cons v vs)
  obtain vi var where v: "v = (vi, var)" by (cases v)
  let ?S = "length (style_items cfg)"
  let ?d1 = "foldl max d (map fst (variant_feed cfg (vi, var)))"
  from Cons.prems have var: "var \<in> set (variants cfg)"
    and sub: "snd ` set vs \<subseteq> set (variants cfg)"
    and srt: "sorted_wrt (<) (map fst vs)"
    and pos: "\<forall>v\<in>set vs. 1 \<le> fst v \<and> fst v \<le> length (variants cfg)"
    and vi: "1 \<le> vi" "vi \<le> length (variants cfg)" and later: "\<forall>u\<in>set vs. vi < fst u"
    by (auto simp: v)
  note ih = Cons.IH [OF sub srt pos, of ?d1]
  have sep: "i < fst sc"
    if "i \<in> set (map fst (variant_feed cfg (vi, var)))"
      and "sc \<in> set (concat (map (variant_feed cfg) vs))" for i sc
  proof -
    from that(1) obtain sc0 where "sc0 \<in> set (variant_feed cfg (vi, var))" "i = fst sc0"
      by auto
    with variant_feed_bounds [of sc0 cfg vi var] have a: "i \<le> (vi - 1) * ?S + ?S" by simp
    from that(2) obtain u where u: "u \<in> set vs" "sc \<in> set (variant_feed cfg u)" by auto
    obtain ui uvar where uu: "u = (ui, uvar)" by (cases u)
    from u(1) later have lt: "vi < ui" by (auto simp: uu)
    from variant_feed_bounds [of sc cfg ui uvar] u(2) have b: "(ui - 1) * ?S < fst sc"
      by (simp add: uu)
    from lt vi have "vi \<le> ui - 1" by simp
    then have "vi * ?S \<le> (ui - 1) * ?S" by (rule mult_le_mono1)
    moreover have "(vi - 1) * ?S + ?S = vi * ?S" using vi(1)
      by (cases vi) simp_all
    ultimately show ?thesis using a b by linarith
  qed
  have flt: "filter (\<lambda>sc. ?d1 < fst sc) (concat (map (variant_feed cfg) vs))
           = filter (\<lambda>sc. d < fst sc) (concat (map (variant_feed cfg) vs))"
    by (rule filter_cong [OF refl]) (simp add: foldl_max_less sep del: set_concat set_map)
  show ?case
    unfolding v
    by (simp add: candidates_block_block_of [OF assms(1) var]
          variant_feed_events [OF assms(1,2) var vi, unfolded One_nat_def] ih flt)
qed

lemma map_add_upt_from: "map ((+) (c::nat)) [m..<m + n] = [c + m..<c + m + n]"
  by (induction n) simp_all

lemma variant_feed_indices:
  "map fst (variant_feed cfg (vi, var))
     = [(vi - 1) * length (style_items cfg) + 1
        ..<(vi - 1) * length (style_items cfg) + 1 + length (style_items cfg)]"
proof -
  have "map fst (variant_feed cfg (vi, var))
      = map ((+) ((vi - 1) * length (style_items cfg)))
          (map fst (enumerate 1 (style_items cfg)))"
    unfolding variant_feed_fst by (simp only: map_map comp_def)
  also have "\<dots> = map ((+) ((vi - 1) * length (style_items cfg)))
                    [1..<1 + length (style_items cfg)]"
    by (simp only: map_fst_enumerate)
  finally show ?thesis by (simp only: map_add_upt_from)
qed

lemma upt_join: "(a::nat) \<le> b \<Longrightarrow> b \<le> c \<Longrightarrow> [a..<b] @ [b..<c] = [a..<c]"
  by (metis le_Suc_ex upt_add_eq_append)

lemma rows_indices:
  assumes "1 \<le> a"
  shows "map fst (concat (map (variant_feed cfg) (enumerate a vs)))
     = [(a - 1) * length (style_items cfg) + 1
        ..<(a - 1 + length vs) * length (style_items cfg) + 1]"
  using assms
proof (induction vs arbitrary: a)
  case Nil
  then show ?case by simp
next
  case (Cons v vs)
  let ?S = "length (style_items cfg)"
  have ih: "map fst (concat (map (variant_feed cfg) (enumerate (Suc a) vs)))
     = [a * ?S + 1..<(a + length vs) * ?S + 1]"
    using Cons.IH [of "Suc a"] by simp
  have e: "(a - 1) * ?S + 1 + ?S = a * ?S + 1" using Cons.prems
    by (cases a) simp_all
  have f: "(a - 1 + length (v # vs)) * ?S + 1 = (a + length vs) * ?S + 1" using Cons.prems
    by (cases a) simp_all
  have "map fst (concat (map (variant_feed cfg) (enumerate a (v # vs))))
      = map fst (variant_feed cfg (a, v))
        @ map fst (concat (map (variant_feed cfg) (enumerate (Suc a) vs)))"
    by simp
  also have "\<dots> = [(a - 1) * ?S + 1..<a * ?S + 1] @ [a * ?S + 1..<(a + length vs) * ?S + 1]"
    unfolding ih variant_feed_indices e ..
  also have "\<dots> = [(a - 1) * ?S + 1..<(a + length vs) * ?S + 1]"
  proof (rule upt_join)
    show "(a - 1) * ?S + 1 \<le> a * ?S + 1" using e by linarith
    show "a * ?S + 1 \<le> (a + length vs) * ?S + 1" by (simp add: add_mult_distrib)
  qed
  finally show ?case unfolding f .
qed

lemma feed_indices: "map fst (scenario_feed cfg) = [1..<total_scenarios cfg + 1]"
  using rows_indices [of 1 cfg "variants cfg"]
  by (simp add: scenario_feed_def total_scenarios_def)



lemma main_flat:
  assumes "wf_inputs r cfg" and "answers_safe cfg w"
  shows "main r cfg w False cp
     = (None,
        concat (map (scenario_events r cfg w)
                  (filter (\<lambda>sc. load_checkpoint cp < fst sc) (scenario_feed cfg)))
        @ [Unlink])"
proof -
  let ?k = "load_checkpoint cp"
  have a: "snd ` set (enumerate 1 (variants cfg)) \<subseteq> set (variants cfg)"
    by (auto simp: in_set_enumerate_eq)
  have b: "sorted_wrt (<) (map fst (enumerate 1 (variants cfg)))"
    by (simp only: map_fst_enumerate sorted_wrt_upt)
  have c: "\<forall>v\<in>set (enumerate 1 (variants cfg)). 1 \<le> fst v \<and> fst v \<le> length (variants cfg)"
    by (auto simp: in_set_enumerate_eq)
  have d: "\<not> foldl max ?k [1..<total_scenarios cfg + 1] < total_scenarios cfg"
  proof (cases "total_scenarios cfg")
    case 0
    then show ?thesis by simp
  next
    case (Suc n)
    then have "total_scenarios cfg \<in> set [1..<total_scenarios cfg + 1]" by simp
    then show ?thesis unfolding foldl_max_less by blast
  qed
  have v: "variant_loop r cfg w False (enumerate 1 (variants cfg)) ?k
     = (None, foldl max ?k [1..<total_scenarios cfg + 1],
        concat (map (scenario_events r cfg w)
                  (filter (\<lambda>sc. ?k < fst sc) (scenario_feed cfg))))"
    unfolding variant_loop_flat [OF assms a b c]
    by (simp only: feed_indices scenario_feed_def [symmetric])
  show ?thesis
    unfolding main_def Let_def v using d
    by (simp add: total_scenarios_def)
qed








lemma written_Nil: "written [] = []"
  by (simp add: written_def)


text \<open>Whatever the inputs and the mode, nothing at or below the loaded checkpoint is logged.\<close>

lemma style_loop_above:
  "d \<le> fst (snd (style_loop r cfg w vi var block xs d))
   \<and> (\<forall>i\<in>set (written (snd (snd (style_loop r cfg w vi var block xs d)))). d < i)"
proof (induction xs arbitrary: d)
  case Nil
  then show ?case by (simp add: written_def)
next
  case (Cons x xs)
  obtain si style_key tpl where x: "x = (si, style_key, tpl)" by (cases x)
  define b where "b = (vi - 1) * length (style_items cfg)"
  have step: "style_loop r cfg w vi var block ((si, style_key, tpl) # xs) d =
       (if b + si \<le> d then style_loop r cfg w vi var block xs d
        else (case process_item r cfg w var block style_key tpl (b + si) of
                (Some err, evs) \<Rightarrow> (Some err, d, evs)
              | (None, evs) \<Rightarrow>
                  (case style_loop r cfg w vi var block xs (b + si) of
                     (res, d', evs') \<Rightarrow> (res, d', evs @ evs'))))"
    unfolding b_def style_loop.simps Let_def ..
  show ?case
  proof (cases "b + si \<le> d")
    case True
    then show ?thesis unfolding x step using Cons [of d] by simp
  next
    case False
    obtain res evs where p: "process_item r cfg w var block style_key tpl (b + si) = (res, evs)"
      by (cases "process_item r cfg w var block style_key tpl (b + si)")
    from process_item_written [of r cfg w var block style_key tpl "b + si"] p
    have pw: "\<forall>i\<in>set (written evs). d < i" using False by auto
    show ?thesis
    proof (cases res)
      case (Some e)
      then show ?thesis unfolding x step using False p pw by simp
    next
      case None
      obtain res' d' evs' where
        s: "style_loop r cfg w vi var block xs (b + si) = (res', d', evs')"
        by (cases "style_loop r cfg w vi var block xs (b + si)")
      from Cons [of "b + si"] s have "b + si \<le> d'" "\<forall>i\<in>set (written evs'). b + si < i"
        by simp_all
      then show ?thesis unfolding x step using False p pw None s
        by (auto simp: written_append)
    qed
  qed
qed

lemma variant_loop_above:
  "d \<le> fst (snd (variant_loop r cfg w dry_run vs d))
   \<and> (\<forall>i\<in>set (written (snd (snd (variant_loop r cfg w dry_run vs d)))). d < i)"
proof (induction vs arbitrary: d)
  case Nil
  then show ?case by (simp add: written_def)
next
  case (Cons v vs)
  obtain vi var where v: "v = (vi, var)" by (cases v)
  show ?case
  proof (cases "dry_run \<and> vi > DRY_RUN_LIMIT r")
    case True
    then show ?thesis unfolding v by (simp add: written_def)
  next
    case False
    show ?thesis
    proof (cases "candidates_block r cfg var")
      case (Inl e)
      then show ?thesis unfolding v using False by (simp add: written_def)
    next
      case (Inr block)
      obtain res d1 evs where
        s: "style_loop r cfg w vi var block (enumerate 1 (style_items cfg)) d = (res, d1, evs)"
        by (cases "style_loop r cfg w vi var block (enumerate 1 (style_items cfg)) d")
      from style_loop_above [of d r cfg w vi var block "enumerate 1 (style_items cfg)"] s
      have a: "d \<le> d1" "\<forall>i\<in>set (written evs). d < i" by simp_all
      show ?thesis
      proof (cases res)
        case (Some e)
        then show ?thesis unfolding v using False Inr s [unfolded One_nat_def] a
          by (simp add: written_Nil)
      next
        case None
        obtain res' d' evs' where
          t: "variant_loop r cfg w dry_run vs d1 = (res', d', evs')"
          by (cases "variant_loop r cfg w dry_run vs d1")
        from Cons [of d1] t have "d1 \<le> d'" "\<forall>i\<in>set (written evs'). d1 < i" by simp_all
        with a show ?thesis unfolding v using False Inr s [unfolded One_nat_def] None t
          by (auto simp: written_append written_Nil)
      qed
    qed
  qed
qed

lemma main_above:
  "i \<in> set (written (snd (main r cfg w dry_run cp))) \<Longrightarrow> load_checkpoint cp < i"
proof -
  obtain res d evs where
    v: "variant_loop r cfg w dry_run (enumerate 1 (variants cfg)) (load_checkpoint cp)
          = (res, d, evs)"
    by (cases "variant_loop r cfg w dry_run (enumerate 1 (variants cfg)) (load_checkpoint cp)")
  from variant_loop_above [of "load_checkpoint cp" r cfg w dry_run "enumerate 1 (variants cfg)"] v
  have a: "\<forall>i\<in>set (written evs). load_checkpoint cp < i" by simp
  have "written (snd (main r cfg w dry_run cp)) = written evs"
    unfolding main_def Let_def v
    by (cases res) (simp_all add: written_append, simp add: written_def)
  with a show "i \<in> set (written (snd (main r cfg w dry_run cp))) \<Longrightarrow> load_checkpoint cp < i"
    by simp
qed

subsection \<open>Failed calls\<close>

lemma item_disk:
  "foldl (apply_event ts) d
     (snd (invoke r answer k p) @ [Write idx rec, SaveCheckpoint idx, Sleep t])
   = d\<lparr>run_log := (run_log d)(ts := run_log d ts @ [(idx, rec)]), checkpoint := Some idx\<rparr>"
  by (simp add: invoke_disk)

lemma invoke_all_raise: "fst (invoke r (\<lambda>a. Raises e) k p) = []"
proof -
  have "fst (retry_loop attempt_hr (\<lambda>a. Raises e) k p [1..<MAX_RETRIES + 1]) = []"
    using retry_all_fail [of attempt_hr "\<lambda>a. Raises e" k p] by (simp add: attempt_hr_def)
  moreover have "fst (retry_loop attempt_swe (\<lambda>a. Raises e) k p [1..<MAX_RETRIES + 1]) = []"
    using retry_all_fail [of attempt_swe "\<lambda>a. Raises e" k p] by (simp add: attempt_swe_def)
  ultimately show ?thesis
    by (cases r) (simp_all only: invoke_def call_model_def call_gemini_def role.case)
qed

text \<open>
  Claim C6. A scenario whose invocation returns the empty string still logs its record,
  with empty response, rationale, selection line and selection, and then saves its own
  index as the checkpoint: on the disk the record is appended to the log of the process
  and the checkpoint file holds the index. A run that starts from a checkpoint at or
  beyond that index, in either mode and whatever the endpoint answers, logs nothing for
  it; and when that run is a full one that raises nothing, its effects are those of the
  scenarios beyond the checkpoint alone, so that the scenario is not invoked again.
\<close>

theorem C6_failed_call_record:
  assumes "wf_inputs r cfg" and "var \<in> set (variants cfg)"
    and "pick_api_key (api_keys cfg) (int idx) = Inr key"
    and "fst (invoke r (endpoint w idx) key (render_prompt r tpl block)) = []"
  shows "\<exists>rec.
       process_item r cfg w var block style_key tpl idx
         = (None, snd (invoke r (endpoint w idx) key (render_prompt r tpl block))
                  @ [Write idx rec, SaveCheckpoint idx, Sleep DELAY_SECONDS])
     \<and> response_text rec = [] \<and> rationale_text rec = [] \<and> selection_line rec = []
     \<and> selected_persona_ids rec = []
     \<and> checkpoint (foldl (apply_event ts) d
                      (snd (process_item r cfg w var block style_key tpl idx))) = Some idx
     \<and> run_log (foldl (apply_event ts) d
                   (snd (process_item r cfg w var block style_key tpl idx))) ts
         = run_log d ts @ [(idx, rec)]
     \<and> (\<forall>dry_run w' n. idx \<le> n \<longrightarrow>
            idx \<notin> set (written (snd (main r cfg w' dry_run (Some n)))))
     \<and> (\<forall>w' n. idx \<le> n \<and> answers_safe cfg w' \<longrightarrow>
            main r cfg w' False (Some n)
              = (None,
                 concat (map (scenario_events r cfg w')
                           (filter (\<lambda>sc. n < fst sc) (scenario_feed cfg)))
                 @ [Unlink])
            \<and> (\<forall>sc\<in>set (filter (\<lambda>sc. n < fst sc) (scenario_feed cfg)). fst sc \<noteq> idx))"
proof -
  let ?inv = "invoke r (endpoint w idx) key (render_prompt r tpl block)"
  have "int_safe (fst ?inv)" unfolding assms(4) by (rule int_safe_Nil)
  from process_item_ok [OF assms(1,2,3) this, of style_key] obtain rec where
    p: "process_item r cfg w var block style_key tpl idx
         = (None, snd ?inv @ [Write idx rec, SaveCheckpoint idx, Sleep DELAY_SECONDS])"
    and q: "response_text rec = fst ?inv"
    and s: "parse_response r (response_text rec) (persona_ids var)
             = Inr (rationale_text rec, selection_line rec, selected_persona_ids rec)"
    by blast
  from q assms(4) have e: "response_text rec = []" by simp
  from s [unfolded e parse_response_empty]
  have f: "rationale_text rec = []" "selection_line rec = []" "selected_persona_ids rec = []"
    by simp_all
  have g: "checkpoint (foldl (apply_event ts) d
                      (snd (process_item r cfg w var block style_key tpl idx))) = Some idx"
    "run_log (foldl (apply_event ts) d
                   (snd (process_item r cfg w var block style_key tpl idx))) ts
         = run_log d ts @ [(idx, rec)]"
    unfolding p snd_conv item_disk by simp_all
  have h: "\<forall>dry_run w' n. idx \<le> n \<longrightarrow>
            idx \<notin> set (written (snd (main r cfg w' dry_run (Some n))))"
  proof (intro allI impI notI)
    fix dry_run w' n
    assume "idx \<le> n" "idx \<in> set (written (snd (main r cfg w' dry_run (Some n))))"
    with main_above [of idx r cfg w' dry_run "Some n"] show False
      by (simp add: load_checkpoint_def)
  qed
  have i: "\<forall>w' n. idx \<le> n \<and> answers_safe cfg w' \<longrightarrow>
            main r cfg w' False (Some n)
              = (None,
                 concat (map (scenario_events r cfg w')
                           (filter (\<lambda>sc. n < fst sc) (scenario_feed cfg)))
                 @ [Unlink])
            \<and> (\<forall>sc\<in>set (filter (\<lambda>sc. n < fst sc) (scenario_feed cfg)). fst sc \<noteq> idx)"
  proof (intro allI impI, elim conjE)
    fix w' n
    assume a: "idx \<le> n" "answers_safe cfg w'"
    from main_flat [OF assms(1) a(2), of "Some n"] a(1)
    show "main r cfg w' False (Some n)
              = (None,
                 concat (map (scenario_events r cfg w')
                           (filter (\<lambda>sc. n < fst sc) (scenario_feed cfg)))
                 @ [Unlink])
            \<and> (\<forall>sc\<in>set (filter (\<lambda>sc. n < fst sc) (scenario_feed cfg)). fst sc \<noteq> idx)"
      by (auto simp: load_checkpoint_def)
  qed
  from p e f g h i show ?thesis by blast
qed

theorem C6_failed_call_record_witness:
  "\<exists>rec.
     process_item HR
       \<lparr>variants = [\<lparr>variant_id = ''v1'', persona_ids = [''p1'']\<rparr>],
        style_items = [(''plain'', ''Rank {{candidates_block}} now'')],
        id2p = [''p1'' \<mapsto> [''resume_hr'' \<mapsto> ''cv'']],
        api_keys = [''k1'', ''k2'']\<rparr>
       \<lparr>endpoint = \<lambda>i a. Raises TransportError, clock = \<lambda>i. ''t''\<rparr>
       \<lparr>variant_id = ''v1'', persona_ids = [''p1'']\<rparr>
       ''B'' ''plain'' ''Rank {{candidates_block}} now'' 1
       = (None,
          snd (call_model (\<lambda>a. Raises TransportError) ''k1''
                 (''Rank B now'' @ [CHR 0x0A, CHR 0x0A] @ ''Please add a brief rationale.''))
          @ [Write 1 rec, SaveCheckpoint 1, Sleep DELAY_SECONDS])
   \<and> response_text rec = [] \<and> selected_persona_ids rec = []"
proof -
  let ?var = "\<lparr>variant_id = ''v1'', persona_ids = [''p1'']\<rparr>"
  let ?cfg = "\<lparr>variants = [?var],
             style_items = [(''plain'', ''Rank {{candidates_block}} now'')],
             id2p = [''p1'' \<mapsto> [''resume_hr'' \<mapsto> ''cv'']],
             api_keys = [''k1'', ''k2'']\<rparr>"
  let ?w = "\<lparr>endpoint = \<lambda>i a. Raises TransportError, clock = \<lambda>i. ''t''\<rparr>"
  let ?tpl = "''Rank {{candidates_block}} now''"
  have wf: "wf_inputs HR ?cfg" by (simp add: wf_inputs_def resume_field_def)
  have v: "?var \<in> set (variants ?cfg)" by simp
  have k: "pick_api_key (api_keys ?cfg) (int 1) = Inr ''k1''"
    by (simp add: pick_api_key_def pick_api_key_sized_def key_slot_def py_index_def
          PROMPTS_PER_KEY_def)
  have p: "render_prompt HR ?tpl ''B''
         = ''Rank B now'' @ [CHR 0x0A, CHR 0x0A] @ ''Please add a brief rationale.''"
    by (simp add: render_prompt_def py_replace_def PLACEHOLDER_def RATIONALE_SUFFIX_def)
  have e: "fst (invoke HR (endpoint ?w 1) ''k1'' (render_prompt HR ?tpl ''B'')) = []"
    using invoke_all_raise [of HR TransportError] by simp
  have i: "invoke HR = call_model" by (simp add: invoke_def)
  from C6_failed_call_record
    [where style_key = "''plain''" and ts = "[]"
       and d = "\<lparr>checkpoint = None, run_log = \<lambda>t. []\<rparr>", OF wf v k e]
  obtain rec where
    "process_item HR ?cfg ?w ?var ''B'' ''plain'' ?tpl 1
       = (None, snd (invoke HR (endpoint ?w 1) ''k1'' (render_prompt HR ?tpl ''B''))
                @ [Write 1 rec, SaveCheckpoint 1, Sleep DELAY_SECONDS])"
    "response_text rec = []" "selected_persona_ids rec = []"
    by blast
  then show ?thesis unfolding p i by (intro exI [of _ rec]) simp
qed

subsection \<open>Checkpoint and resumption\<close>





end
